theory Spec2Isabelle
  imports Complex_Main
begin

section \<open>Failures and checked vector access\<close>

text \<open>
  The C++ sources index \<open>std::vector\<close> with \<open>operator[]\<close>, which performs no bounds
  check: an index outside the vector is undefined behaviour.  The model makes every such
  access explicit.  \<open>Out_Of_Range\<close>, \<open>Null_Dereference\<close> and \<open>Signed_Overflow\<close> stand
  for undefined behaviour (nothing is reported to the caller); \<open>Length_Error\<close> is the one
  exception the code can really throw (\<open>std::length_error\<close>, from a vector constructor
  that is handed a negative size).  C++ \<open>int\<close> is modelled by \<open>int\<close>, \<open>double\<close> by
  \<open>real\<close>.
\<close>

datatype failure = Out_Of_Range | Null_Dereference | Signed_Overflow | Length_Error

definition thrown :: "failure \<Rightarrow> bool" where
  "thrown e = (e = Length_Error)"

fun andThen :: "failure + 'a \<Rightarrow> ('a \<Rightarrow> failure + 'b) \<Rightarrow> failure + 'b" where
  "andThen (Inl e) f = Inl e"
| "andThen (Inr v) f = f v"

definition vget :: "'a list \<Rightarrow> int \<Rightarrow> failure + 'a" where
  "vget v i = (if 0 \<le> i \<and> i < int (length v) then Inr (v ! nat i) else Inl Out_Of_Range)"

definition vput :: "'a list \<Rightarrow> int \<Rightarrow> 'a \<Rightarrow> failure + 'a list" where
  "vput v i a = (if 0 \<le> i \<and> i < int (length v) then Inr (v[nat i := a]) else Inl Out_Of_Range)"

primrec foldE :: "('a \<Rightarrow> 's \<Rightarrow> failure + 's) \<Rightarrow> 'a list \<Rightarrow> 's \<Rightarrow> failure + 's" where
  "foldE f [] s = Inr s"
| "foldE f (x # xs) s = andThen (f x s) (foldE f xs)"


section \<open>double: the arithmetic of the centroid\<close>

text \<open>
  The fields \<open>m_value\<close> and \<open>m_scale\<close> of a pixel hold finite doubles and are modelled
  by the real numbers they denote.  \<open>centroid\<close> computes with them, and every one of its
  operations rounds, can overflow, and can produce a NaN, so its intermediate values
  and its results are values of the type \<open>double\<close>: a finite number, the negative zero
  (\<open>Finite 0\<close> is the positive one), an infinity or NaN.  The arithmetic is that of
  IEEE 754 binary64 in the default rounding mode (to nearest, ties to even), each
  operation rounded on its own.
\<close>

datatype double = Finite real | NegZero | PlusInf | MinusInf | NaN

text \<open>
  Rounding.  A binary64 number is \<open>m * 2^e\<close> with integers \<open>m\<close> and \<open>e\<close>, \<open>\<bar>m\<bar> < 2^53\<close>
  and \<open>- 1074 \<le> e \<le> 971\<close>.  To round \<open>x\<close>, it is written as \<open>z * 2^e\<close> with
  \<open>2^52 \<le> \<bar>z\<bar> < 2^53\<close>, or with \<open>e = - 1074\<close> and \<open>\<bar>z\<bar> < 2^52\<close> when \<open>x\<close> is too small for
  that: \<open>shift_down\<close> halves \<open>z\<close> while it is too large, and \<open>shift_up\<close> doubles it while it
  is too small and \<open>e\<close> is above - 1074.  Then \<open>z\<close> is rounded to the nearest integer, to
  the even one when two are equally near.  A result of magnitude \<open>2^1024\<close> or more is an
  infinity, and a result 0 keeps the sign of \<open>x\<close>.
\<close>

function shift_down :: "real \<Rightarrow> int \<Rightarrow> real \<times> int" where
  "shift_down x e = (if 2 ^ 53 \<le> \<bar>x\<bar> then shift_down (x / 2) (e + 1) else (x, e))"
  by auto
termination
proof (relation "measure (\<lambda>(x, e). nat \<lfloor>\<bar>x\<bar>\<rfloor>)")
  show "wf (measure (\<lambda>(x, e). nat \<lfloor>\<bar>x\<bar>\<rfloor>))" by simp
next
  fix x :: real and e :: int
  assume a: "2 ^ 53 \<le> \<bar>x\<bar>"
  then have "\<bar>x\<bar> / 2 \<le> \<bar>x\<bar> - 1" by simp
  then have "\<lfloor>\<bar>x\<bar> / 2\<rfloor> \<le> \<lfloor>\<bar>x\<bar> - 1\<rfloor>" by (rule floor_mono)
  then have "\<lfloor>\<bar>x\<bar> / 2\<rfloor> < \<lfloor>\<bar>x\<bar>\<rfloor>" by simp
  moreover have "0 < \<lfloor>\<bar>x\<bar>\<rfloor>" using a by simp
  ultimately show "((x / 2, e + 1), (x, e)) \<in> measure (\<lambda>(x, e). nat \<lfloor>\<bar>x\<bar>\<rfloor>)"
    by simp
qed

function shift_up :: "real \<Rightarrow> int \<Rightarrow> real \<times> int" where
  "shift_up x e = (if \<bar>x\<bar> < 2 ^ 52 \<and> - 1074 < e then shift_up (2 * x) (e - 1) else (x, e))"
  by auto
termination
  by (relation "measure (\<lambda>(x, e). nat (e + 1074))") auto

declare shift_down.simps [simp del] shift_up.simps [simp del]

definition round_even :: "real \<Rightarrow> int" where
  "round_even x =
     (let n = \<lfloor>x\<rfloor>; d = x - of_int n in
      if d < 1 / 2 then n else if 1 / 2 < d then n + 1 else if even n then n else n + 1)"

definition signed_zero :: "bool \<Rightarrow> double" where
  "signed_zero negative = (if negative then NegZero else Finite 0)"

definition signed_inf :: "bool \<Rightarrow> double" where
  "signed_inf negative = (if negative then MinusInf else PlusInf)"

definition round_double :: "real \<Rightarrow> double" where
  "round_double x =
     (if x = 0 then Finite 0
      else case shift_down x 0 of (y, d) \<Rightarrow> case shift_up y d of (z, e) \<Rightarrow>
        let r = of_int (round_even z) * 2 powi e in
        if r = 0 then signed_zero (x < 0)
        else if 2 ^ 1024 \<le> \<bar>r\<bar> then signed_inf (x < 0)
        else Finite r)"

text \<open>
  The real numbers that are doubles, the least positive one, and the conversion of an
  \<open>int\<close>.
\<close>

definition is_double :: "real \<Rightarrow> bool" where
  "is_double x = (round_double x = Finite x)"

definition least_double :: real where
  "least_double = 2 powi (- 1074)"

definition int_to_double :: "int \<Rightarrow> double" where
  "int_to_double i = round_double (of_int i)"

text \<open>
  The operations \<open>+\<close>, \<open>*\<close>, \<open>/\<close> and \<open>>\<close> on doubles.  On finite operands that are not zero
  each is the exact result, rounded; the other cases are the special values of the
  standard.
\<close>

fun to_real :: "double \<Rightarrow> real" where
  "to_real (Finite a) = a"
| "to_real d = 0"

fun sign_bit :: "double \<Rightarrow> bool" where
  "sign_bit (Finite a) = (a < 0)"
| "sign_bit NegZero = True"
| "sign_bit MinusInf = True"
| "sign_bit d = False"

definition is_zero :: "double \<Rightarrow> bool" where
  "is_zero d = (d = Finite 0 \<or> d = NegZero)"

definition is_inf :: "double \<Rightarrow> bool" where
  "is_inf d = (d = PlusInf \<or> d = MinusInf)"

definition dadd :: "double \<Rightarrow> double \<Rightarrow> double" where
  "dadd x y =
     (if x = NaN \<or> y = NaN then NaN
      else if is_inf x \<and> is_inf y then (if x = y then x else NaN)
      else if is_inf x then x
      else if is_inf y then y
      else if is_zero x \<and> is_zero y then signed_zero (sign_bit x \<and> sign_bit y)
      else round_double (to_real x + to_real y))"

definition dmul :: "double \<Rightarrow> double \<Rightarrow> double" where
  "dmul x y =
     (if x = NaN \<or> y = NaN then NaN
      else if (is_inf x \<and> is_zero y) \<or> (is_zero x \<and> is_inf y) then NaN
      else if is_inf x \<or> is_inf y then signed_inf (sign_bit x \<noteq> sign_bit y)
      else if is_zero x \<or> is_zero y then signed_zero (sign_bit x \<noteq> sign_bit y)
      else round_double (to_real x * to_real y))"

definition ddiv :: "double \<Rightarrow> double \<Rightarrow> double" where
  "ddiv x y =
     (if x = NaN \<or> y = NaN then NaN
      else if (is_inf x \<and> is_inf y) \<or> (is_zero x \<and> is_zero y) then NaN
      else if is_inf x \<or> is_zero y then signed_inf (sign_bit x \<noteq> sign_bit y)
      else if is_zero x \<or> is_inf y then signed_zero (sign_bit x \<noteq> sign_bit y)
      else round_double (to_real x / to_real y))"

definition dgt :: "double \<Rightarrow> double \<Rightarrow> bool" where
  "dgt x y =
     (if x = NaN \<or> y = NaN then False
      else if x = PlusInf then y \<noteq> PlusInf
      else if y = MinusInf then x \<noteq> MinusInf
      else if x = MinusInf \<or> y = PlusInf then False
      else to_real x > to_real y)"


section \<open>lutzObject: the pixel container\<close>

record pixData =
  m_xbin :: int
  m_ybin :: int
  m_value :: real
  m_scale :: real

text \<open>The constructor \<open>pixData(x, y, val)\<close>: the scale is always initialised to 1.\<close>

definition pixData_ctor :: "int \<Rightarrow> int \<Rightarrow> real \<Rightarrow> pixData" where
  "pixData_ctor x y val = \<lparr>m_xbin = x, m_ybin = y, m_value = val, m_scale = 1\<rparr>"

record lutzObject =
  m_xmin :: int
  m_xmax :: int
  m_ymin :: int
  m_ymax :: int
  m_value_max :: real
  m_value_min :: real
  m_value_sum :: real
  m_pixInfo :: "pixData list"

definition lutzObject_clear :: "lutzObject \<Rightarrow> lutzObject" where
  "lutzObject_clear obj = obj\<lparr>m_pixInfo := [], m_xmin := 10000000, m_xmax := - 10000000,
     m_ymin := 10000000, m_ymax := - 10000000,
     m_value_min := 10 ^ 30, m_value_max := - (10 ^ 30), m_value_sum := 0\<rparr>"

text \<open>The default constructor only calls \<open>clear\<close>.\<close>

definition lutzObject_ctor :: lutzObject where
  "lutzObject_ctor = \<lparr>m_xmin = 10000000, m_xmax = - 10000000,
     m_ymin = 10000000, m_ymax = - 10000000,
     m_value_max = - (10 ^ 30), m_value_min = 10 ^ 30, m_value_sum = 0, m_pixInfo = []\<rparr>"

definition same_position :: "pixData \<Rightarrow> pixData \<Rightarrow> bool" where
  "same_position p q = (m_xbin p = m_xbin q \<and> m_ybin p = m_ybin q)"

definition lutzObject_contains :: "lutzObject \<Rightarrow> pixData \<Rightarrow> bool" where
  "lutzObject_contains obj pixel = list_ex (same_position pixel) (m_pixInfo obj)"

definition lutzObject_append :: "lutzObject \<Rightarrow> pixData \<Rightarrow> lutzObject" where
  "lutzObject_append obj pixel =
     (if lutzObject_contains obj pixel then obj
      else obj\<lparr>
        m_xmin := (if m_xbin pixel < m_xmin obj then m_xbin pixel else m_xmin obj),
        m_xmax := (if m_xbin pixel > m_xmax obj then m_xbin pixel else m_xmax obj),
        m_ymin := (if m_ybin pixel < m_ymin obj then m_ybin pixel else m_ymin obj),
        m_ymax := (if m_ybin pixel > m_ymax obj then m_ybin pixel else m_ymax obj),
        m_value_min := (if m_value pixel < m_value_min obj then m_value pixel else m_value_min obj),
        m_value_max := (if m_value pixel > m_value_max obj then m_value pixel else m_value_max obj),
        m_pixInfo := m_pixInfo obj @ [pixel],
        m_value_sum := m_value_sum obj + m_value pixel\<rparr>)"

text \<open>\<open>append(std::vector<pixData>&)\<close>: the pixels one after the other.\<close>

definition lutzObject_append_list :: "lutzObject \<Rightarrow> pixData list \<Rightarrow> lutzObject" where
  "lutzObject_append_list obj pixels = foldl lutzObject_append obj pixels"

text \<open>
  \<open>remove(index)\<close> subtracts the pixel's value from the sum and erases the pixel; it
  touches no other summary field.  An index outside the vector is undefined behaviour.
\<close>

definition lutzObject_remove :: "lutzObject \<Rightarrow> int \<Rightarrow> failure + lutzObject" where
  "lutzObject_remove obj index =
     andThen (vget (m_pixInfo obj) index) (\<lambda>p.
       Inr (obj\<lparr>m_value_sum := m_value_sum obj - m_value p,
                 m_pixInfo := take (nat index) (m_pixInfo obj) @ drop (Suc (nat index)) (m_pixInfo obj)\<rparr>))"


text \<open>
  \<open>centroid(xcenter, ycenter, weight_bins)\<close>.  The loop accumulates, in doubles and in
  the order of the pixels, the weighted coordinate sums and the sum of weights;
  \<open>centroid_sums\<close> is that loop, started from \<open>(0.0, 0.0, 0.0)\<close>.  The weight of a pixel
  is its scale, multiplied by its value when \<open>weight_bins\<close> is set; the coordinates are
  \<open>int\<close>s converted to double.  The code then normalises when the sum of weights is
  above 0 and calls itself with \<open>weight_bins = false\<close> otherwise.  That call can recurse
  for ever, so the function is a \<open>partial_function\<close>: \<open>None\<close> means that the call never
  returns.
\<close>

definition centroid_weight :: "bool \<Rightarrow> pixData \<Rightarrow> double" where
  "centroid_weight weight_bins p =
     (let weight = Finite (m_scale p) in
      if weight_bins then dmul weight (Finite (m_value p)) else weight)"

definition centroid_accum :: "bool \<Rightarrow> double \<times> double \<times> double \<Rightarrow> pixData \<Rightarrow> double \<times> double \<times> double" where
  "centroid_accum weight_bins acc p =
     (case acc of (xcenter, ycenter, weight_sum) \<Rightarrow>
        let weight = centroid_weight weight_bins p in
        (dadd xcenter (dmul weight (int_to_double (m_xbin p))),
         dadd ycenter (dmul weight (int_to_double (m_ybin p))),
         dadd weight_sum weight))"

definition centroid_sums :: "lutzObject \<Rightarrow> bool \<Rightarrow> double \<times> double \<times> double" where
  "centroid_sums obj weight_bins =
     foldl (centroid_accum weight_bins) (Finite 0, Finite 0, Finite 0) (m_pixInfo obj)"

partial_function (option) lutzObject_centroid :: "lutzObject \<Rightarrow> bool \<Rightarrow> (double \<times> double) option" where
  "lutzObject_centroid obj weight_bins =
     (case centroid_sums obj weight_bins of (xcenter, ycenter, weight_sum) \<Rightarrow>
        if dgt weight_sum (Finite 0) then Some (ddiv xcenter weight_sum, ddiv ycenter weight_sum)
        else lutzObject_centroid obj False)"


section \<open>lutzOnePass: the row scan\<close>

datatype LUTZSTATUS = COMPLETE | INCOMPLETE | OBJECT | NONOBJECT

datatype LUTZ_STACK_ACTION = PUSH | POP

type_synonym Object = "pixData list"

text \<open>
  The class members, and the two locals \<open>co\<close> and \<open>pstop\<close> of \<open>run()\<close>, which every
  helper receives by reference.  \<open>m_image\<close> is a \<open>double*\<close>: \<open>None\<close> is the null pointer,
  \<open>Some img\<close> a buffer holding the samples \<open>img\<close>.  The markers are the characters the
  code writes: 0, \<open>S\<close>, \<open>s\<close>, \<open>f\<close> and \<open>F\<close>.
\<close>

record lutzOnePass =
  m_xpix :: int
  m_ypix :: int
  m_npixelmin :: int
  m_image :: "real list option"
  m_threshold :: real
  m_MARKER :: "char list"
  m_Objects :: "lutzObject list"
  m_STORE :: "Object list"
  m_PSSTACK :: "LUTZSTATUS list"
  m_START :: "int list"
  m_END :: "int list"
  m_INFO :: "Object list"
  m_PS :: LUTZSTATUS
  m_CS :: LUTZSTATUS
  co :: int
  pstop :: int

text \<open>
  The constructors.  They leave \<open>m_PS\<close> and \<open>m_CS\<close> uninitialised; \<open>run()\<close> writes both
  at the start of every row before it reads them, so the model may start them anywhere.
\<close>

definition lutzOnePass_ctor :: "real list option \<Rightarrow> int \<Rightarrow> int \<Rightarrow> lutzOnePass" where
  "lutzOnePass_ctor img xpixels ypixels =
     \<lparr>m_xpix = xpixels, m_ypix = ypixels, m_npixelmin = 0, m_image = img, m_threshold = 0,
      m_MARKER = [], m_Objects = [], m_STORE = [], m_PSSTACK = [], m_START = [], m_END = [],
      m_INFO = [], m_PS = COMPLETE, m_CS = NONOBJECT, co = 0, pstop = 0\<rparr>"

definition lutzOnePass_default :: lutzOnePass where
  "lutzOnePass_default = lutzOnePass_ctor None 0 0"

definition SetThreshold :: "real \<Rightarrow> lutzOnePass \<Rightarrow> lutzOnePass" where
  "SetThreshold threshold s = s\<lparr>m_threshold := threshold\<rparr>"

definition SetNPixelMin :: "int \<Rightarrow> lutzOnePass \<Rightarrow> lutzOnePass" where
  "SetNPixelMin npixelmin s = s\<lparr>m_npixelmin := npixelmin\<rparr>"

definition fits_int :: "int \<Rightarrow> bool" where
  "fits_int v = (- (2 ^ 31) \<le> v \<and> v < 2 ^ 31)"

text \<open>
  \<open>init_members\<close>.  \<open>m_MARKER\<close> gets \<open>m_xpix + 1\<close> entries, the other vectors \<open>m_xpix\<close>.
  A negative size converts to a huge \<open>size_t\<close>, and the vector constructor throws
  \<open>std::length_error\<close>.
\<close>

definition init_members :: "lutzOnePass \<Rightarrow> failure + lutzOnePass" where
  "init_members s =
     (if \<not> fits_int (m_xpix s + 1) then Inl Signed_Overflow
      else if m_xpix s + 1 < 0 then Inl Length_Error
      else if m_xpix s < 0 then Inl Length_Error
      else Inr (s\<lparr>m_Objects := [],
                  m_MARKER := replicate (nat (m_xpix s + 1)) (CHR 0x00),
                  m_PSSTACK := replicate (nat (m_xpix s)) COMPLETE,
                  m_START := replicate (nat (m_xpix s)) (- 1),
                  m_END := replicate (nat (m_xpix s)) (- 1),
                  m_INFO := replicate (nat (m_xpix s)) [],
                  m_STORE := replicate (nat (m_xpix s)) []\<rparr>))"

text \<open>
  \<open>GetPixValue\<close>: \<open>bin = m_xpix * ybin + xbin\<close> in 32-bit \<open>int\<close> arithmetic, then
  \<open>m_image[bin]\<close>.
\<close>

definition GetPixValue :: "int \<Rightarrow> int \<Rightarrow> lutzOnePass \<Rightarrow> failure + real" where
  "GetPixValue xbin ybin s =
     (let bin = m_xpix s * ybin + xbin in
      if \<not> fits_int (m_xpix s * ybin) \<or> \<not> fits_int bin then Inl Signed_Overflow
      else case m_image s of
             None \<Rightarrow> Inl Null_Dereference
           | Some img \<Rightarrow> vget img bin)"

definition AssessPixel :: "int \<Rightarrow> int \<Rightarrow> lutzOnePass \<Rightarrow> failure + bool" where
  "AssessPixel xbin ybin s =
     andThen (GetPixValue xbin ybin s) (\<lambda>v. Inr (v > m_threshold s))"

definition ModPSSTACK :: "LUTZ_STACK_ACTION \<Rightarrow> lutzOnePass \<Rightarrow> failure + lutzOnePass" where
  "ModPSSTACK status s =
     (case status of
        PUSH \<Rightarrow>
          andThen (vput (m_PSSTACK s) (pstop s) (m_PS s)) (\<lambda>stack.
            Inr (s\<lparr>m_PSSTACK := stack, m_PS := COMPLETE, pstop := pstop s + 1\<rparr>))
      | POP \<Rightarrow>
          andThen (vput (m_PSSTACK s) (pstop s) COMPLETE) (\<lambda>stack.
          andThen (vget stack (pstop s - 1)) (\<lambda>ps.
            Inr (s\<lparr>m_PSSTACK := stack, pstop := pstop s - 1, m_PS := ps\<rparr>))))"

text \<open>One turn of the copy loop of \<open>ModOBSTACK(POP)\<close>: \<open>m_STORE[m_START[co]].push_back(p)\<close>.\<close>

definition store_push_back :: "pixData \<Rightarrow> lutzOnePass \<Rightarrow> failure + lutzOnePass" where
  "store_push_back p s =
     andThen (vget (m_START s) (co s)) (\<lambda>k.
     andThen (vget (m_STORE s) k) (\<lambda>obj.
     andThen (vput (m_STORE s) k (obj @ [p])) (\<lambda>store.
       Inr (s\<lparr>m_STORE := store\<rparr>))))"

definition ModOBSTACK :: "LUTZ_STACK_ACTION \<Rightarrow> int \<Rightarrow> lutzOnePass \<Rightarrow> failure + lutzOnePass" where
  "ModOBSTACK status xbin s =
     (case status of
        PUSH \<Rightarrow>
          andThen (ModPSSTACK PUSH s) (\<lambda>s.
          andThen (vput (m_START s) (co s + 1) xbin) (\<lambda>start.
          andThen (vput (m_INFO s) (co s + 1) []) (\<lambda>info.
            Inr (s\<lparr>co := co s + 1, m_START := start, m_INFO := info\<rparr>))))
      | POP \<Rightarrow>
          andThen (ModPSSTACK POP s) (\<lambda>s.
          andThen (vget (m_INFO s) (co s)) (\<lambda>pixels.
          andThen (foldE store_push_back pixels s) (\<lambda>s.
          andThen (vput (m_INFO s) (co s) []) (\<lambda>info.
          andThen (vput (m_START s) (co s) (- 1)) (\<lambda>start.
          andThen (vput (m_END s) (co s) (- 1)) (\<lambda>ends.
            Inr (s\<lparr>m_INFO := info, m_START := start, m_END := ends, co := co s - 1\<rparr>))))))))"

definition StartSegment :: "int \<Rightarrow> lutzOnePass \<Rightarrow> failure + lutzOnePass" where
  "StartSegment xindx s0 =
     (let s = s0\<lparr>m_CS := OBJECT\<rparr> in
      if m_PS s = OBJECT then
        andThen (vget (m_START s) (co s)) (\<lambda>k.
          if k = - 1 then
            andThen (vput (m_MARKER s) xindx (CHR ''S'')) (\<lambda>marker.
            andThen (vput (m_START s) (co s) xindx) (\<lambda>start.
              Inr (s\<lparr>m_MARKER := marker, m_START := start\<rparr>)))
          else
            andThen (vput (m_MARKER s) xindx (CHR ''s'')) (\<lambda>marker.
              Inr (s\<lparr>m_MARKER := marker\<rparr>)))
      else
        andThen (ModOBSTACK PUSH xindx s) (\<lambda>s.
        andThen (vput (m_MARKER s) xindx (CHR ''S'')) (\<lambda>marker.
          Inr (s\<lparr>m_MARKER := marker\<rparr>))))"

definition EndSegment :: "int \<Rightarrow> lutzOnePass \<Rightarrow> failure + lutzOnePass" where
  "EndSegment xindx s0 =
     (let s = s0\<lparr>m_CS := NONOBJECT\<rparr> in
      if m_PS s \<noteq> COMPLETE then
        andThen (vput (m_MARKER s) xindx (CHR ''f'')) (\<lambda>marker.
        andThen (vput (m_END s) (co s) xindx) (\<lambda>ends.
          Inr (s\<lparr>m_MARKER := marker, m_END := ends\<rparr>)))
      else
        andThen (ModOBSTACK POP xindx s) (\<lambda>s.
        andThen (vput (m_MARKER s) xindx (CHR ''F'')) (\<lambda>marker.
          Inr (s\<lparr>m_MARKER := marker\<rparr>))))"

text \<open>
  \<open>WriteObject\<close>.  \<open>obj.size() >= m_npixelmin\<close> compares a \<open>size_t\<close> with an \<open>int\<close>: the
  \<open>int\<close> is converted to the unsigned 64-bit type first.  The new \<open>lutzObject\<close> is filled
  by \<open>append\<close>, which skips positions it already holds.
\<close>

definition WriteObject :: "Object \<Rightarrow> lutzOnePass \<Rightarrow> lutzOnePass" where
  "WriteObject obj s =
     (if obj \<noteq> [] \<and> int (length obj) \<ge> m_npixelmin s mod 2 ^ 64
      then s\<lparr>m_Objects := m_Objects s @ [lutzObject_append_list lutzObject_ctor obj]\<rparr>
      else s)"

text \<open>One turn of the copy loop of the \<open>S\<close> marker: \<open>m_INFO[co].push_back(p)\<close>.\<close>

definition info_push_back :: "pixData \<Rightarrow> lutzOnePass \<Rightarrow> failure + lutzOnePass" where
  "info_push_back p s =
     andThen (vget (m_INFO s) (co s)) (\<lambda>obj.
     andThen (vput (m_INFO s) (co s) (obj @ [p])) (\<lambda>info.
       Inr (s\<lparr>m_INFO := info\<rparr>)))"

definition ProcessNewMarker :: "char \<Rightarrow> int \<Rightarrow> lutzOnePass \<Rightarrow> failure + lutzOnePass" where
  "ProcessNewMarker prev_marker xindx s0 =
     (if prev_marker = CHR ''S'' then
        andThen (ModPSSTACK PUSH s0) (\<lambda>s.
        andThen
          (if m_CS s = NONOBJECT then
             andThen (vput (m_PSSTACK s) (pstop s) COMPLETE) (\<lambda>stack.
             andThen (vget (m_STORE s) xindx) (\<lambda>stored.
             andThen (vput (m_INFO s) (co s + 1) stored) (\<lambda>info.
             andThen (vput (m_START s) (co s + 1) (- 1)) (\<lambda>start.
             andThen (vput (m_STORE s) xindx []) (\<lambda>store.
               Inr (s\<lparr>m_PSSTACK := stack, pstop := pstop s + 1, co := co s + 1,
                       m_INFO := info, m_START := start, m_STORE := store\<rparr>))))))
           else
             andThen (vget (m_STORE s) xindx) (\<lambda>stored.
             andThen (foldE info_push_back stored s) (\<lambda>s.
             andThen (vput (m_STORE s) xindx []) (\<lambda>store.
               Inr (s\<lparr>m_STORE := store\<rparr>)))))
          (\<lambda>s. Inr (s\<lparr>m_PS := OBJECT\<rparr>)))
      else if prev_marker = CHR ''s'' then
        andThen
          (if m_CS s0 = OBJECT \<and> m_PS s0 = COMPLETE then
             andThen (vget (m_START s0) (co s0)) (\<lambda>k.
             andThen (vget (m_START s0) (co s0 - 1)) (\<lambda>k'.
               if k' = - 1 then
                 andThen (vput (m_START s0) (co s0 - 1) k) (\<lambda>start.
                   Inr (s0\<lparr>pstop := pstop s0 - 1, co := co s0 - 1, m_START := start\<rparr>))
               else
                 andThen (vput (m_MARKER s0) k (CHR ''s'')) (\<lambda>marker.
                   Inr (s0\<lparr>pstop := pstop s0 - 1, co := co s0 - 1, m_MARKER := marker\<rparr>))))
           else Inr s0)
          (\<lambda>s. Inr (s\<lparr>m_PS := OBJECT\<rparr>))
      else if prev_marker = CHR ''f'' then
        Inr (s0\<lparr>m_PS := INCOMPLETE\<rparr>)
      else if prev_marker = CHR ''F'' then
        andThen (vget (m_PSSTACK s0) (pstop s0 - 1)) (\<lambda>ps.
          let s = s0\<lparr>pstop := pstop s0 - 1, m_PS := ps\<rparr> in
          if m_CS s = NONOBJECT \<and> m_PS s = COMPLETE then
            andThen (vget (m_START s) (co s)) (\<lambda>k.
            andThen
              (if k = - 1 then
                 andThen (vget (m_INFO s) (co s)) (\<lambda>obj.
                 andThen (vput (m_INFO (WriteObject obj s)) (co s) []) (\<lambda>info.
                   Inr ((WriteObject obj s)\<lparr>m_INFO := info\<rparr>)))
               else
                 andThen (vget (m_END s) (co s)) (\<lambda>e.
                 andThen (vput (m_MARKER s) e (CHR ''F'')) (\<lambda>marker.
                 andThen (vget (m_INFO s) (co s)) (\<lambda>obj.
                 andThen (vput (m_STORE s) k obj) (\<lambda>store.
                   Inr (s\<lparr>m_MARKER := marker, m_STORE := store\<rparr>))))))
              (\<lambda>s.
                 andThen (vget (m_PSSTACK s) (pstop s - 1)) (\<lambda>ps'.
                   Inr (s\<lparr>co := co s - 1, pstop := pstop s - 1, m_PS := ps'\<rparr>))))
          else Inr s)
      else Inr s0)"

text \<open>
  \<open>StoreClearance\<close>: every entry of \<open>m_STORE\<close> is handed to \<open>WriteObject\<close> and cleared.
\<close>

definition StoreClearance :: "lutzOnePass \<Rightarrow> failure + lutzOnePass" where
  "StoreClearance s =
     foldE (\<lambda>i s.
        andThen (vget (m_STORE s) i) (\<lambda>obj.
        andThen (vput (m_STORE s) i []) (\<lambda>store.
          Inr ((WriteObject obj s)\<lparr>m_STORE := store\<rparr>))))
       (map int [0..<length (m_STORE s)]) s"

text \<open>
  The body of the inner loop of \<open>run()\<close> for the pixel \<open>(xindx, yindx)\<close>, and the code
  that follows the inner loop (the trailing marker of the row, where \<open>xindx\<close> is the value
  the loop left behind and \<open>m_MARKER.back()\<close> is the last marker).
\<close>

definition run_pixel :: "int \<Rightarrow> int \<Rightarrow> lutzOnePass \<Rightarrow> failure + lutzOnePass" where
  "run_pixel yindx xindx s0 =
     andThen (GetPixValue xindx yindx s0) (\<lambda>v.
     andThen (vget (m_MARKER s0) xindx) (\<lambda>prev_marker.
     andThen (vput (m_MARKER s0) xindx (CHR 0x00)) (\<lambda>marker.
     andThen (AssessPixel xindx yindx s0) (\<lambda>is_image_pixel.
       let s = s0\<lparr>m_MARKER := marker\<rparr>; pixel = (pixData_ctor xindx yindx 0)\<lparr>m_value := v\<rparr> in
       if is_image_pixel then
         andThen (if m_CS s = NONOBJECT then StartSegment xindx s else Inr s) (\<lambda>s.
         andThen (if prev_marker \<noteq> CHR 0x00 then ProcessNewMarker prev_marker xindx s else Inr s) (\<lambda>s.
           info_push_back pixel s))
       else
         andThen (if prev_marker \<noteq> CHR 0x00 then ProcessNewMarker prev_marker xindx s else Inr s) (\<lambda>s.
           if m_CS s = OBJECT then EndSegment xindx s else Inr s)))))"

definition run_row_end :: "int \<Rightarrow> lutzOnePass \<Rightarrow> failure + lutzOnePass" where
  "run_row_end xindx s0 =
     (if m_MARKER s0 = [] then Inl Out_Of_Range
      else
        let prev_marker = last (m_MARKER s0);
            s = s0\<lparr>m_MARKER := butlast (m_MARKER s0) @ [CHR 0x00]\<rparr> in
        andThen (if prev_marker \<noteq> CHR 0x00 then ProcessNewMarker prev_marker xindx s else Inr s) (\<lambda>s.
          if m_CS s = OBJECT then EndSegment xindx s else Inr s))"

definition run_row :: "int \<Rightarrow> lutzOnePass \<Rightarrow> failure + lutzOnePass" where
  "run_row yindx s0 =
     (let s = s0\<lparr>m_PS := COMPLETE, m_CS := NONOBJECT\<rparr> in
      andThen (foldE (run_pixel yindx) (map int [0..<nat (m_xpix s)]) s)
        (run_row_end (int (nat (m_xpix s)))))"

definition run_rows :: "nat \<Rightarrow> lutzOnePass \<Rightarrow> failure + lutzOnePass" where
  "run_rows n s = foldE run_row (map int [0..<n]) s"

definition run :: "lutzOnePass \<Rightarrow> failure + lutzOnePass" where
  "run s0 =
     andThen (init_members s0) (\<lambda>s.
     andThen (run_rows (nat (m_ypix s)) (s\<lparr>co := 0, pstop := 0\<rparr>)) StoreClearance)"

text \<open>
  The queries.  \<open>GetObject\<close> is \<open>return m_Objects[obj_id]\<close>; \<open>NumObjects\<close> returns the
  size of \<open>m_Objects\<close>.
\<close>

definition GetObject :: "lutzOnePass \<Rightarrow> int \<Rightarrow> failure + lutzObject" where
  "GetObject s obj_id = vget (m_Objects s) obj_id"

definition GetObjects :: "lutzOnePass \<Rightarrow> lutzObject list" where
  "GetObjects s = m_Objects s"

definition NumObjects :: "lutzOnePass \<Rightarrow> int" where
  "NumObjects s = int (length (m_Objects s))"


section \<open>Notions the properties are stated in\<close>

definition pixel_positions :: "pixData list \<Rightarrow> (int \<times> int) list" where
  "pixel_positions ps = map (\<lambda>p. (m_xbin p, m_ybin p)) ps"

definition positions :: "lutzObject \<Rightarrow> (int \<times> int) list" where
  "positions obj = pixel_positions (m_pixInfo obj)"

text \<open>The foreground pixels of the configured image, row by row: the samples above the threshold.\<close>

definition foreground :: "lutzOnePass \<Rightarrow> (int \<times> int) list" where
  "foreground s =
     (case m_image s of
        None \<Rightarrow> []
      | Some img \<Rightarrow>
          concat (map (\<lambda>y. concat (map (\<lambda>x.
              if img ! (nat (m_xpix s) * y + x) > m_threshold s then [(int x, int y)] else [])
            [0..<nat (m_xpix s)])) [0..<nat (m_ypix s)]))"

text \<open>
  8-connectivity: two positions are adjacent when they differ by at most one in each
  coordinate, and \<open>linked8 S p q\<close> holds when a chain of adjacent positions of \<open>S\<close> leads
  from \<open>p\<close> to \<open>q\<close>.
\<close>

definition adjacent8 :: "int \<times> int \<Rightarrow> int \<times> int \<Rightarrow> bool" where
  "adjacent8 p q = (\<bar>fst p - fst q\<bar> \<le> 1 \<and> \<bar>snd p - snd q\<bar> \<le> 1)"

inductive linked8 :: "(int \<times> int) set \<Rightarrow> int \<times> int \<Rightarrow> int \<times> int \<Rightarrow> bool" for S where
  here: "p \<in> S \<Longrightarrow> linked8 S p p"
| step: "linked8 S p q \<Longrightarrow> r \<in> S \<Longrightarrow> adjacent8 q r \<Longrightarrow> linked8 S p r"

text \<open>
  The averages the centroid is specified by: the sums are taken over the stored pixels,
  with weight \<open>scale * value\<close> (weighted) or \<open>scale\<close> (unweighted).  First in the real
  numbers.
\<close>

definition weighted_denominator :: "lutzObject \<Rightarrow> real" where
  "weighted_denominator obj = (\<Sum>p\<leftarrow>m_pixInfo obj. m_scale p * m_value p)"

definition weighted_average :: "lutzObject \<Rightarrow> real \<times> real" where
  "weighted_average obj =
     ((\<Sum>p\<leftarrow>m_pixInfo obj. m_scale p * m_value p * real_of_int (m_xbin p)) / weighted_denominator obj,
      (\<Sum>p\<leftarrow>m_pixInfo obj. m_scale p * m_value p * real_of_int (m_ybin p)) / weighted_denominator obj)"

definition scale_sum :: "lutzObject \<Rightarrow> real" where
  "scale_sum obj = (\<Sum>p\<leftarrow>m_pixInfo obj. m_scale p)"

definition unweighted_average :: "lutzObject \<Rightarrow> real \<times> real" where
  "unweighted_average obj =
     ((\<Sum>p\<leftarrow>m_pixInfo obj. m_scale p * real_of_int (m_xbin p)) / scale_sum obj,
      (\<Sum>p\<leftarrow>m_pixInfo obj. m_scale p * real_of_int (m_ybin p)) / scale_sum obj)"

text \<open>
  Then in doubles: every product and every quotient is rounded, and a sum is taken from
  0.0 on, term by term in the order of the pixels, each partial sum rounded.
\<close>

definition double_sum :: "double list \<Rightarrow> double" where
  "double_sum ds = foldl dadd (Finite 0) ds"

definition double_weighted_denominator :: "lutzObject \<Rightarrow> double" where
  "double_weighted_denominator obj =
     double_sum (map (\<lambda>p. dmul (Finite (m_scale p)) (Finite (m_value p))) (m_pixInfo obj))"

definition double_weighted_average :: "lutzObject \<Rightarrow> double \<times> double" where
  "double_weighted_average obj =
     (ddiv (double_sum (map (\<lambda>p. dmul (dmul (Finite (m_scale p)) (Finite (m_value p)))
                (int_to_double (m_xbin p))) (m_pixInfo obj)))
        (double_weighted_denominator obj),
      ddiv (double_sum (map (\<lambda>p. dmul (dmul (Finite (m_scale p)) (Finite (m_value p)))
                (int_to_double (m_ybin p))) (m_pixInfo obj)))
        (double_weighted_denominator obj))"

definition double_scale_sum :: "lutzObject \<Rightarrow> double" where
  "double_scale_sum obj = double_sum (map (\<lambda>p. Finite (m_scale p)) (m_pixInfo obj))"

definition double_unweighted_average :: "lutzObject \<Rightarrow> double \<times> double" where
  "double_unweighted_average obj =
     (ddiv (double_sum (map (\<lambda>p. dmul (Finite (m_scale p)) (int_to_double (m_xbin p)))
                (m_pixInfo obj)))
        (double_scale_sum obj),
      ddiv (double_sum (map (\<lambda>p. dmul (Finite (m_scale p)) (int_to_double (m_ybin p)))
                (m_pixInfo obj)))
        (double_scale_sum obj))"

text \<open>
  The two agree when nothing rounds.  \<open>no_rounding weighted obj\<close> holds when every
  coordinate, every weight, every product and every partial sum of the weighted
  (or unweighted) sums above, taken in the real numbers, is a double.
\<close>

fun no_rounding_from :: "bool \<Rightarrow> real \<times> real \<times> real \<Rightarrow> pixData list \<Rightarrow> bool" where
  "no_rounding_from weighted acc [] = True"
| "no_rounding_from weighted acc (p # ps) =
     (case acc of (x, y, w) \<Rightarrow>
        let k = (if weighted then m_scale p * m_value p else m_scale p);
            kx = k * real_of_int (m_xbin p);
            ky = k * real_of_int (m_ybin p) in
        is_double (real_of_int (m_xbin p)) \<and> is_double (real_of_int (m_ybin p))
        \<and> is_double k \<and> is_double kx \<and> is_double ky
        \<and> is_double (x + kx) \<and> is_double (y + ky) \<and> is_double (w + k)
        \<and> no_rounding_from weighted (x + kx, y + ky, w + k) ps)"

definition no_rounding :: "bool \<Rightarrow> lutzObject \<Rightarrow> bool" where
  "no_rounding weighted obj = no_rounding_from weighted (0, 0, 0) (m_pixInfo obj)"

definition round_pair :: "real \<times> real \<Rightarrow> double \<times> double" where
  "round_pair c = (round_double (fst c), round_double (snd c))"

text \<open>
  Two notions for the proofs about the centroid: the double \<open>d\<close> is the real number \<open>r\<close>
  (a zero of either sign is 0), and the double \<open>d\<close> is positive.
\<close>

definition denotes :: "double \<Rightarrow> real \<Rightarrow> bool" where
  "denotes d r = (d = Finite r \<or> (r = 0 \<and> d = NegZero))"

definition positive_double :: "double \<Rightarrow> bool" where
  "positive_double d =
     (case d of Finite r \<Rightarrow> least_double \<le> r | PlusInf \<Rightarrow> True | _ \<Rightarrow> False)"


section \<open>The U-shaped grids\<close>

text \<open>
  A U on a grid of width \<open>uw\<close> and height \<open>uh\<close>: a left bar in the columns from \<open>ua\<close>
  up to, but not including, \<open>uea\<close>, from row \<open>uta\<close> down to row \<open>ur - 1\<close>; a right bar
  in the columns from \<open>ub\<close> up to \<open>ueb\<close>, from row \<open>utb\<close> down to row \<open>ur - 1\<close>; and
  the horizontal row \<open>ur\<close> beneath them, from the first column of the left bar to the
  last column of the right bar.
\<close>

record ushape =
  uw :: nat
  uh :: nat
  ua :: nat
  uea :: nat
  ub :: nat
  ueb :: nat
  ur :: nat
  uta :: nat
  utb :: nat

definition u_pixel :: "ushape \<Rightarrow> nat \<Rightarrow> nat \<Rightarrow> bool" where
  "u_pixel g x y =
     ((y = ur g \<and> ua g \<le> x \<and> x < ueb g)
      \<or> (ua g \<le> x \<and> x < uea g \<and> uta g \<le> y \<and> y < ur g)
      \<or> (ub g \<le> x \<and> x < ueb g \<and> utb g \<le> y \<and> y < ur g))"

text \<open>
  The U lies inside its grid, each bar is at least one column wide and one row high,
  and the two bars are at least one column apart.
\<close>

definition u_fits :: "ushape \<Rightarrow> bool" where
  "u_fits g =
     (ua g < uea g \<and> uea g < ub g \<and> ub g < ueb g \<and> ueb g \<le> uw g
      \<and> uta g < ur g \<and> utb g < ur g \<and> ur g < uh g)"

text \<open>The samples of \<open>img\<close> above \<open>thr\<close> are exactly the pixels of the U.\<close>

definition shows_u :: "ushape \<Rightarrow> real list \<Rightarrow> real \<Rightarrow> bool" where
  "shows_u g img thr =
     (\<forall>x < uw g. \<forall>y < uh g. (img ! (uw g * y + x) > thr) = u_pixel g x y)"

text \<open>
  The labeler \<open>s\<close> is configured with a grid whose foreground is exactly the U \<open>g\<close>: the
  image buffer holds \<open>uw * uh\<close> samples (few enough for the \<open>int\<close> index of
  \<open>GetPixValue\<close>), and the minimum size is 0.
\<close>

definition u_shaped :: "ushape \<Rightarrow> lutzOnePass \<Rightarrow> bool" where
  "u_shaped g s =
     (u_fits g \<and> m_xpix s = int (uw g) \<and> m_ypix s = int (uh g) \<and> m_npixelmin s = 0
      \<and> uw g * uh g < 2 ^ 31
      \<and> (\<exists>img. m_image s = Some img \<and> length img = uw g * uh g
            \<and> shows_u g img (m_threshold s)))"

text \<open>The positions of the U.\<close>

definition u_positions :: "ushape \<Rightarrow> (int \<times> int) set" where
  "u_positions g = {(int x, int y) | x y. x < uw g \<and> y < uh g \<and> u_pixel g x y}"

section \<open>Notions for the proofs about the row scan\<close>

text \<open>The state of \<open>run()\<close> when the first \<open>k\<close> rows have been scanned.\<close>

definition rows_done :: "nat \<Rightarrow> lutzOnePass \<Rightarrow> failure + lutzOnePass" where
  "rows_done k s0 = andThen (init_members s0) (\<lambda>s. run_rows k (s\<lparr>co := 0, pstop := 0\<rparr>))"

text \<open>
  What the body of the inner loop does for a background pixel (and what the code after
  the loop does for the trailing marker), and what it does for a foreground pixel \<open>p\<close>,
  once the sample has been read and classified.
\<close>

definition step_bg :: "int \<Rightarrow> lutzOnePass \<Rightarrow> failure + lutzOnePass" where
  "step_bg x s0 =
     (let prev_marker = m_MARKER s0 ! nat x;
          s = s0\<lparr>m_MARKER := (m_MARKER s0)[nat x := CHR 0x00]\<rparr> in
      andThen (if prev_marker \<noteq> CHR 0x00 then ProcessNewMarker prev_marker x s else Inr s) (\<lambda>s.
        if m_CS s = OBJECT then EndSegment x s else Inr s))"

definition step_fg :: "pixData \<Rightarrow> int \<Rightarrow> lutzOnePass \<Rightarrow> failure + lutzOnePass" where
  "step_fg p x s0 =
     (let prev_marker = m_MARKER s0 ! nat x;
          s = s0\<lparr>m_MARKER := (m_MARKER s0)[nat x := CHR 0x00]\<rparr> in
      andThen (if m_CS s = NONOBJECT then StartSegment x s else Inr s) (\<lambda>s.
      andThen (if prev_marker \<noteq> CHR 0x00 then ProcessNewMarker prev_marker x s else Inr s) (\<lambda>s.
        info_push_back p s)))"

text \<open>One column of a row of width \<open>w\<close>: a pixel, or the trailing marker at \<open>x = w\<close>.\<close>

definition column :: "nat \<Rightarrow> int \<Rightarrow> int \<Rightarrow> lutzOnePass \<Rightarrow> failure + lutzOnePass" where
  "column w y x s = (if x < int w then run_pixel y x s else run_row_end x s)"

text \<open>The pixel record that \<open>run()\<close> builds for position \<open>(x, y)\<close> of the image \<open>img\<close>.\<close>

definition pixel_at :: "nat \<Rightarrow> real list \<Rightarrow> nat \<Rightarrow> nat \<Rightarrow> pixData" where
  "pixel_at w img x y = (pixData_ctor (int x) (int y) 0)\<lparr>m_value := img ! (w * y + x)\<rparr>"

text \<open>The configuration and the sizes of the buffers, as \<open>init_members\<close> leaves them.\<close>

definition ready :: "nat \<Rightarrow> nat \<Rightarrow> real list \<Rightarrow> real \<Rightarrow> lutzOnePass \<Rightarrow> bool" where
  "ready w h img thr s =
     (m_xpix s = int w \<and> m_ypix s = int h \<and> m_image s = Some img \<and> m_threshold s = thr
      \<and> m_npixelmin s = 0 \<and> length img = w * h \<and> w * h < 2 ^ 31
      \<and> length (m_MARKER s) = Suc w \<and> length (m_PSSTACK s) = w \<and> length (m_START s) = w
      \<and> length (m_END s) = w \<and> length (m_INFO s) = w \<and> length (m_STORE s) = w)"

text \<open>
  The four situations the scan of a U passes through: no object open; a segment open
  in slot 1 whose object started at column \<open>k\<close> and holds the pixels \<open>I\<close>, seen from a
  column with nothing above (\<open>opened\<close>) or from below a segment of the row above
  (\<open>joined\<close>); and an object of the row above in slot 1 with no segment on this row
  (\<open>finishing\<close>).
\<close>

definition quiet :: "lutzOnePass \<Rightarrow> bool" where
  "quiet s = (m_CS s = NONOBJECT \<and> m_PS s = COMPLETE \<and> co s = 0 \<and> pstop s = 0)"

definition opened :: "int \<Rightarrow> Object \<Rightarrow> lutzOnePass \<Rightarrow> bool" where
  "opened k I s =
     (m_CS s = OBJECT \<and> m_PS s = COMPLETE \<and> co s = 1 \<and> pstop s = 1
      \<and> m_PSSTACK s ! 0 = COMPLETE \<and> m_START s ! 1 = k \<and> m_INFO s ! 1 = I)"

definition joined :: "int \<Rightarrow> Object \<Rightarrow> lutzOnePass \<Rightarrow> bool" where
  "joined k I s =
     (m_CS s = OBJECT \<and> m_PS s = OBJECT \<and> co s = 1 \<and> pstop s = 2
      \<and> m_PSSTACK s ! 0 = COMPLETE \<and> m_PSSTACK s ! 1 = COMPLETE
      \<and> m_START s ! 1 = k \<and> m_INFO s ! 1 = I)"

definition finishing :: "Object \<Rightarrow> lutzOnePass \<Rightarrow> bool" where
  "finishing I s =
     (m_CS s = NONOBJECT \<and> m_PS s = OBJECT \<and> co s = 1 \<and> pstop s = 2
      \<and> m_PSSTACK s ! 0 = COMPLETE \<and> m_PSSTACK s ! 1 = COMPLETE
      \<and> m_START s ! 1 = - 1 \<and> m_INFO s ! 1 = I)"


text \<open>
  The state between two rows of the scan of the U \<open>g\<close>, once \<open>k\<close> rows are done:
  the marker left at column \<open>x\<close>, the positions held by \<open>m_STORE[i]\<close>, and the whole
  state.  Up to the horizontal row each bar has its start marker \<open>S\<close> at its first
  column and its end marker \<open>F\<close> right of its last column, and its pixels so far wait
  in \<open>m_STORE\<close> at its first column.  After
  the horizontal row the whole U waits at the left bar's first column, between \<open>S\<close>
  there and \<open>F\<close> right of the right bar.  One row later it has been written, and nothing is left.
\<close>

definition marker_after :: "ushape \<Rightarrow> nat \<Rightarrow> nat \<Rightarrow> char" where
  "marker_after g k x =
     (if k \<le> ur g then
        (if uta g < k \<and> x = ua g then CHR ''S''
         else if uta g < k \<and> x = uea g then CHR ''F''
         else if utb g < k \<and> x = ub g then CHR ''S''
         else if utb g < k \<and> x = ueb g then CHR ''F''
         else CHR 0x00)
      else if k = Suc (ur g) then
        (if x = ua g then CHR ''S'' else if x = ueb g then CHR ''F'' else CHR 0x00)
      else CHR 0x00)"

text \<open>The positions of the columns \<open>c\<close> to \<open>e - 1\<close> in the rows \<open>t\<close> to \<open>k - 1\<close>, row by row.\<close>

definition bar_list :: "nat \<Rightarrow> nat \<Rightarrow> nat \<Rightarrow> nat \<Rightarrow> (int \<times> int) list" where
  "bar_list c e t k = concat (map (\<lambda>y. map (\<lambda>x. (int x, int y)) [c..<e]) [t..<k])"

definition u_list :: "ushape \<Rightarrow> (int \<times> int) list" where
  "u_list g =
     bar_list (ua g) (uea g) (uta g) (ur g)
     @ map (\<lambda>x. (int x, int (ur g))) [ua g..<ub g]
     @ bar_list (ub g) (ueb g) (utb g) (ur g)
     @ map (\<lambda>x. (int x, int (ur g))) [ub g..<ueb g]"

definition store_after :: "ushape \<Rightarrow> nat \<Rightarrow> nat \<Rightarrow> (int \<times> int) list" where
  "store_after g k i =
     (if k \<le> ur g then
        (if i = ua g then bar_list (ua g) (uea g) (uta g) k
         else if i = ub g then bar_list (ub g) (ueb g) (utb g) k
         else [])
      else if k = Suc (ur g) then (if i = ua g then u_list g else [])
      else [])"

definition scanned :: "ushape \<Rightarrow> real list \<Rightarrow> real \<Rightarrow> nat \<Rightarrow> lutzOnePass \<Rightarrow> bool" where
  "scanned g img thr k s =
     (ready (uw g) (uh g) img thr s \<and> co s = 0 \<and> pstop s = 0
      \<and> (\<forall>x \<le> uw g. m_MARKER s ! x = marker_after g k x)
      \<and> (\<forall>i < uw g. pixel_positions (m_STORE s ! i) = store_after g k i)
      \<and> (if k \<le> Suc (ur g) then m_Objects s = []
          else \<exists>obj. m_Objects s = [obj] \<and> set (positions obj) = set (u_list g)))"


section \<open>Example inputs\<close>

text \<open>
  Images are written row by row, 1 for a sample above the default threshold 0.
  \<open>arch_4x3\<close> is
  \<^verbatim>\<open>
    . # # .
    # . . #
    . . # .
  \<close>
  and \<open>arch_4x4\<close> has the further row \<^verbatim>\<open>. . . #\<close> below it.  In both all foreground
  pixels form one 8-connected component.
\<close>

definition arch_4x3 :: lutzOnePass where
  "arch_4x3 = lutzOnePass_ctor (Some [0, 1, 1, 0,  1, 0, 0, 1,  0, 0, 1, 0]) 4 3"

definition arch_4x4 :: lutzOnePass where
  "arch_4x4 = lutzOnePass_ctor (Some [0, 1, 1, 0,  1, 0, 0, 1,  0, 0, 1, 0,  0, 0, 0, 1]) 4 4"

definition single_1x1 :: lutzOnePass where
  "single_1x1 = lutzOnePass_ctor (Some [1]) 1 1"

definition single_2x1 :: lutzOnePass where
  "single_2x1 = lutzOnePass_ctor (Some [1, 0]) 2 1"

definition two_pixels :: lutzObject where
  "two_pixels = lutzObject_append_list lutzObject_ctor [pixData_ctor 0 0 1, pixData_ctor 5 5 2]"

definition skewed :: lutzObject where
  "skewed = lutzObject_append_list lutzObject_ctor [pixData_ctor 0 0 1, pixData_ctor 1 0 (- 3)]"

definition bright_corner :: lutzObject where
  "bright_corner = lutzObject_append_list lutzObject_ctor [pixData_ctor 0 0 1, pixData_ctor 1 0 3]"

definition lopsided :: lutzObject where
  "lopsided = lutzObject_append_list lutzObject_ctor
     [pixData_ctor 0 0 1, (pixData_ctor 1 0 1)\<lparr>m_scale := - 2\<rparr>]"

text \<open>
  Three objects on which double arithmetic matters.  In \<open>absorbed\<close> the values are
  \<open>10^16\<close>, 1 and \<open>- 10^16\<close>: the 1 is lost when it is added to \<open>10^16\<close>.  In \<open>cancelling\<close>
  the scales are these three numbers.  In \<open>saturated\<close> two values of \<open>2^1023\<close> add up to
  infinity.
\<close>

definition absorbed :: lutzObject where
  "absorbed = lutzObject_append_list lutzObject_ctor
     [pixData_ctor 0 0 (10 ^ 16), pixData_ctor 1 0 1, pixData_ctor 2 0 (- (10 ^ 16))]"

definition cancelling :: lutzObject where
  "cancelling = lutzObject_append_list lutzObject_ctor
     [(pixData_ctor 0 0 1)\<lparr>m_scale := 10 ^ 16\<rparr>, pixData_ctor 1 0 1,
      (pixData_ctor 2 0 1)\<lparr>m_scale := - (10 ^ 16)\<rparr>]"

definition saturated :: lutzObject where
  "saturated = lutzObject_append_list lutzObject_ctor
     [pixData_ctor 0 0 (2 ^ 1023), pixData_ctor 1 0 (2 ^ 1023)]"

text \<open>
  Two U-shaped inputs.  \<open>u_3x3\<close> is
  \<^verbatim>\<open>
    # . #
    # . #
    # # #
  \<close>
  and \<open>u_6x5\<close>, whose bars differ in width and height and which has background around
  the U, is
  \<^verbatim>\<open>
    . . . . . .
    . # # . . .
    . # # . # .
    . # # # # .
    . . . . . .
  \<close>
\<close>

definition u_3x3 :: lutzOnePass where
  "u_3x3 = lutzOnePass_ctor (Some [1, 0, 1,  1, 0, 1,  1, 1, 1]) 3 3"

definition u_6x5 :: lutzOnePass where
  "u_6x5 = lutzOnePass_ctor (Some
     [0, 0, 0, 0, 0, 0,
      0, 1, 1, 0, 0, 0,
      0, 1, 1, 0, 1, 0,
      0, 1, 1, 1, 1, 0,
      0, 0, 0, 0, 0, 0]) 6 5"

definition u_6x5_shape :: ushape where
  "u_6x5_shape = \<lparr>uw = 6, uh = 5, ua = 1, uea = 3, ub = 4, ueb = 5, ur = 3, uta = 1, utb = 2\<rparr>"


section \<open>Sequencing and the column loop\<close>

lemma andThen_assoc: "andThen (andThen m f) g = andThen m (\<lambda>x. andThen (f x) g)"
  by (cases m) simp_all

lemma andThen_Inr: "andThen m Inr = m"
  by (cases m) simp_all

lemma foldE_append: "foldE f (xs @ ys) s = andThen (foldE f xs s) (foldE f ys)"
proof (induction xs arbitrary: s)
  case Nil
  then show ?case by simp
next
  case (Cons a xs)
  then show ?case by (cases "f a s") simp_all
qed

lemma foldE_snoc: "foldE f (xs @ [x]) s = andThen (foldE f xs s) (f x)"
proof -
  have "foldE f [] = Inr"
    by (rule ext) simp
  then have "foldE f [x] = f x"
    by (intro ext) (simp add: andThen_Inr)
  then show ?thesis by (simp add: foldE_append)
qed

lemma foldE_cong_on:
  assumes "\<And>x s. x \<in> set xs \<Longrightarrow> f x s = g x s"
  shows "foldE f xs s = foldE g xs s"
  using assms
proof (induction xs arbitrary: s)
  case Nil
  then show ?case by simp
next
  case (Cons x xs)
  have "foldE f xs = foldE g xs"
    using Cons by auto
  with Cons.prems show ?case by simp
qed

lemma GetPixValue_ok:
  assumes "ready w h img thr s" and "x < w" and "y < h"
  shows "GetPixValue (int x) (int y) s = Inr (img ! (w * y + x))"
proof -
  have "w * y + x < w * Suc y" using assms(2) by simp
  also have "\<dots> \<le> w * h" using assms(3) by (intro mult_le_mono2) simp
  finally have lt: "w * y + x < w * h" .
  with assms(1) have big: "w * y + x < 2 ^ 31" by (simp add: ready_def)
  then have "int (w * y + x) < 2 ^ 31"
    by (metis of_nat_less_iff of_nat_numeral of_nat_power)
  then have up: "int w * int y + int x < 2 ^ 31" by simp
  have nn: "0 \<le> int w * int y" "0 \<le> int x" by simp_all
  have "fits_int (int w * int y)" "fits_int (int w * int y + int x)"
    unfolding fits_int_def using up nn by linarith+
  moreover have "int w * int y + int x < int (length img)"
    using lt assms(1) by (metis of_nat_add of_nat_less_iff of_nat_mult ready_def)
  moreover have "nat (int w * int y + int x) = w * y + x"
    by (simp add: nat_add_distrib nat_mult_distrib)
  ultimately show ?thesis
    using assms(1) by (simp add: GetPixValue_def ready_def vget_def Let_def)
qed

lemma run_pixel_bg:
  assumes "ready w h img thr s" and "x < w" and "y < h" and "\<not> img ! (w * y + x) > thr"
  shows "run_pixel (int y) (int x) s = step_bg (int x) s"
  using assms GetPixValue_ok [OF assms(1-3)]
  by (simp add: run_pixel_def step_bg_def AssessPixel_def vget_def vput_def ready_def Let_def)

lemma run_pixel_fg:
  assumes "ready w h img thr s" and "x < w" and "y < h" and "img ! (w * y + x) > thr"
  shows "run_pixel (int y) (int x) s = step_fg (pixel_at w img x y) (int x) s"
  using assms GetPixValue_ok [OF assms(1-3)]
  by (simp add: run_pixel_def step_fg_def AssessPixel_def vget_def vput_def ready_def Let_def
      pixel_at_def)

lemma run_row_end_bg:
  assumes "length (m_MARKER s) = Suc w"
  shows "run_row_end (int w) s = step_bg (int w) s"
proof -
  from assms have ne: "m_MARKER s \<noteq> []" by auto
  have l: "last (m_MARKER s) = m_MARKER s ! w"
    using assms ne by (simp add: last_conv_nth)
  have "(m_MARKER s)[w := CHR 0x00] = butlast (m_MARKER s) @ [CHR 0x00]"
    using assms ne
    by (metis append_butlast_last_id diff_Suc_1 length_butlast list_update_length)
  with ne l show ?thesis
    by (simp add: run_row_end_def step_bg_def Let_def)
qed

lemma run_row_columns:
  assumes "m_xpix s = int w"
  shows "run_row y s =
     foldE (column w y) (map int [0..<Suc w]) (s\<lparr>m_PS := COMPLETE, m_CS := NONOBJECT\<rparr>)"
proof -
  have a: "foldE (run_pixel y) (map int [0..<w]) t = foldE (column w y) (map int [0..<w]) t" for t
    by (rule foldE_cong_on) (auto simp: column_def)
  show ?thesis
  proof -
    have "run_row_end (int w) = column w y (int w)"
      by (rule ext) (simp add: column_def)
    with a assms show ?thesis
      by (simp add: run_row_def foldE_snoc)
  qed
qed

lemma foldE_info_push_back:
  assumes "0 \<le> co s" and "nat (co s) < length (m_INFO s)"
  shows "foldE info_push_back ps s =
     Inr (s\<lparr>m_INFO := (m_INFO s)[nat (co s) := m_INFO s ! nat (co s) @ ps]\<rparr>)"
  using assms
proof (induction ps arbitrary: s)
  case Nil
  then show ?case by simp
next
  case (Cons p ps)
  let ?t = "s\<lparr>m_INFO := (m_INFO s)[nat (co s) := m_INFO s ! nat (co s) @ [p]]\<rparr>"
  from Cons.prems have "co s < int (length (m_INFO s))" by linarith
  with Cons.prems have 1: "info_push_back p s = Inr ?t"
    by (simp add: info_push_back_def vget_def vput_def)
  have "foldE info_push_back ps ?t =
     Inr (?t\<lparr>m_INFO := (m_INFO ?t)[nat (co ?t) := m_INFO ?t ! nat (co ?t) @ ps]\<rparr>)"
    by (rule Cons.IH) (use Cons.prems in simp_all)
  with 1 Cons.prems show ?case by simp
qed

lemma foldE_store_push_back:
  assumes "0 \<le> co s" and "nat (co s) < length (m_START s)"
    and "0 \<le> m_START s ! nat (co s)" and "nat (m_START s ! nat (co s)) < length (m_STORE s)"
  shows "foldE store_push_back ps s =
     Inr (s\<lparr>m_STORE := (m_STORE s)[nat (m_START s ! nat (co s)) :=
        m_STORE s ! nat (m_START s ! nat (co s)) @ ps]\<rparr>)"
  using assms
proof (induction ps arbitrary: s)
  case Nil
  then show ?case by simp
next
  case (Cons p ps)
  let ?k = "nat (m_START s ! nat (co s))"
  let ?t = "s\<lparr>m_STORE := (m_STORE s)[?k := m_STORE s ! ?k @ [p]]\<rparr>"
  from Cons.prems have "co s < int (length (m_START s))"
    "m_START s ! nat (co s) < int (length (m_STORE s))" by linarith+
  with Cons.prems have 1: "store_push_back p s = Inr ?t"
    by (simp add: store_push_back_def vget_def vput_def)
  have "foldE store_push_back ps ?t =
     Inr (?t\<lparr>m_STORE := (m_STORE ?t)[nat (m_START ?t ! nat (co ?t)) :=
        m_STORE ?t ! nat (m_START ?t ! nat (co ?t)) @ ps]\<rparr>)"
    by (rule Cons.IH) (use Cons.prems in simp_all)
  with 1 Cons.prems show ?case by simp
qed


section \<open>The pixel container\<close>

lemma two_pixels_pixInfo: "m_pixInfo two_pixels = [pixData_ctor 0 0 1, pixData_ctor 5 5 2]"
  by (simp add: two_pixels_def lutzObject_append_list_def lutzObject_append_def
      lutzObject_contains_def lutzObject_ctor_def pixData_ctor_def same_position_def)

text \<open>
  Claim C6.  The summary fields (bounding box, value range, value sum) equal the
  aggregates over the current pixel set after every sequence of \<open>append\<close>, \<open>remove\<close> and
  \<open>clear\<close>.  The code breaks this in \<open>remove\<close>: after appending the pixels \<open>(0, 0)\<close> with
  value 1 and \<open>(5, 5)\<close> with value 2 and removing the second one, only \<open>(0, 0)\<close> is
  stored and the sum is back to 1, but the bounding box still reaches to \<open>(5, 5)\<close> and
  the maximal value is still 2.
\<close>

theorem remove_leaves_bounds_stale:
  "\<exists>obj. lutzObject_remove two_pixels 1 = Inr obj
     \<and> positions obj = [(0, 0)] \<and> map m_value (m_pixInfo obj) = [1]
     \<and> m_value_sum obj = 1
     \<and> m_xmax obj = 5 \<and> m_ymax obj = 5 \<and> m_value_max obj = 2"
  by (simp add: lutzObject_remove_def vget_def two_pixels_pixInfo positions_def
      pixel_positions_def pixData_ctor_def)
    (simp add: two_pixels_def lutzObject_append_list_def lutzObject_append_def
      lutzObject_contains_def lutzObject_ctor_def pixData_ctor_def same_position_def)

section \<open>Rounding to double\<close>

lemma shift_down_spec:
  "shift_down x d = (y, e) \<Longrightarrow>
     y * 2 powi e = x * 2 powi d \<and> d \<le> e \<and> \<bar>y\<bar> < 2 ^ 53 \<and> (0 < x \<longrightarrow> 0 < y)"
proof (induction x d rule: shift_down.induct)
  case (1 x d)
  show ?case
  proof (cases "2 ^ 53 \<le> \<bar>x\<bar>")
    case True
    with "1.prems" have "shift_down (x / 2) (d + 1) = (y, e)"
      by (simp add: shift_down.simps [of x d])
    from "1.IH" [OF True this]
    have "y * 2 powi e = x / 2 * 2 powi (d + 1)" "d + 1 \<le> e" "\<bar>y\<bar> < 2 ^ 53" "0 < x / 2 \<longrightarrow> 0 < y"
      by simp_all
    then show ?thesis
      by (simp add: power_int_add)
  next
    case False
    with "1.prems" show ?thesis
      by (simp add: shift_down.simps [of x d])
  qed
qed

lemma shift_up_spec:
  "shift_up x d = (y, e) \<Longrightarrow>
     y * 2 powi e = x * 2 powi d \<and> (- 1074 \<le> d \<longrightarrow> - 1074 \<le> e)
     \<and> (2 ^ 52 \<le> \<bar>y\<bar> \<or> e \<le> - 1074) \<and> (0 < x \<longrightarrow> 0 < y)
     \<and> (\<bar>x\<bar> < 2 ^ 53 \<longrightarrow> \<bar>y\<bar> < 2 ^ 53)"
proof (induction x d rule: shift_up.induct)
  case (1 x d)
  show ?case
  proof (cases "\<bar>x\<bar> < 2 ^ 52 \<and> - 1074 < d")
    case True
    with "1.prems" have "shift_up (2 * x) (d - 1) = (y, e)"
      by (simp add: shift_up.simps [of x d])
    from "1.IH" [OF True this]
    have "y * 2 powi e = 2 * x * 2 powi (d - 1)" "- 1074 \<le> d - 1 \<longrightarrow> - 1074 \<le> e"
        "2 ^ 52 \<le> \<bar>y\<bar> \<or> e \<le> - 1074" "0 < 2 * x \<longrightarrow> 0 < y"
        "\<bar>2 * x\<bar> < 2 ^ 53 \<longrightarrow> \<bar>y\<bar> < 2 ^ 53"
      by simp_all
    moreover from True have "\<bar>2 * x\<bar> < 2 ^ 53"
      by (simp add: abs_mult)
    ultimately show ?thesis
      using True by (simp add: power_int_diff)
  next
    case False
    with "1.prems" show ?thesis
      by (auto simp add: shift_up.simps [of x d])
  qed
qed

text \<open>
  Every number has the form that \<open>round_double\<close> rounds: \<open>z * 2^e\<close> with \<open>e\<close> at least
  - 1074, and with \<open>z\<close> at least \<open>2^52\<close> in magnitude unless \<open>e\<close> is - 1074.
\<close>

lemma shifted:
  obtains z e where "shift_up (fst (shift_down x 0)) (snd (shift_down x 0)) = (z, e)"
    and "z * 2 powi e = x" and "- 1074 \<le> e" and "2 ^ 52 \<le> \<bar>z\<bar> \<or> e = - 1074"
    and "0 < x \<longrightarrow> 0 < z" and "\<bar>z\<bar> < 2 ^ 53"
proof -
  obtain y d where sd: "shift_down x 0 = (y, d)" by (cases "shift_down x 0")
  obtain z e where su: "shift_up y d = (z, e)" by (cases "shift_up y d")
  from shift_down_spec [OF sd] have y: "y * 2 powi d = x" "0 \<le> d" "0 < x \<longrightarrow> 0 < y"
      "\<bar>y\<bar> < 2 ^ 53"
    by simp_all
  from shift_up_spec [OF su] have z: "z * 2 powi e = y * 2 powi d" "- 1074 \<le> d \<longrightarrow> - 1074 \<le> e"
      "2 ^ 52 \<le> \<bar>z\<bar> \<or> e \<le> - 1074" "0 < y \<longrightarrow> 0 < z" "\<bar>y\<bar> < 2 ^ 53 \<longrightarrow> \<bar>z\<bar> < 2 ^ 53"
    by blast+
  from y(2) z(2) have e: "- 1074 \<le> e" by simp
  with z(3) have n: "2 ^ 52 \<le> \<bar>z\<bar> \<or> e = - 1074" by auto
  have 1: "shift_up (fst (shift_down x 0)) (snd (shift_down x 0)) = (z, e)"
    by (simp only: sd fst_conv snd_conv su)
  have 2: "z * 2 powi e = x"
    using z(1) y(1) by (rule trans)
  have 3: "0 < x \<longrightarrow> 0 < z"
    using y(3) z(4) by blast
  have 4: "\<bar>z\<bar> < 2 ^ 53"
    using y(4) z(5) by blast
  from 1 2 e n 3 4 show thesis by (rule that)
qed

lemma round_double_shifted:
  assumes "shift_up (fst (shift_down x 0)) (snd (shift_down x 0)) = (z, e)" and "x \<noteq> 0"
  shows "round_double x =
     (if real_of_int (round_even z) * 2 powi e = 0 then signed_zero (x < 0)
      else if 2 ^ 1024 \<le> \<bar>real_of_int (round_even z) * 2 powi e\<bar> then signed_inf (x < 0)
      else Finite (real_of_int (round_even z) * 2 powi e))"
  using assms by (simp add: round_double_def case_prod_unfold Let_def)

lemma least_double_le:
  assumes "- 1074 \<le> e"
  shows "least_double \<le> 2 powi e"
  unfolding least_double_def using assms by (intro power_int_increasing) simp_all

lemma least_double_pos: "0 < least_double"
  unfolding least_double_def by (rule zero_less_power_int) simp

lemma round_even_ge:
  assumes "1 \<le> z"
  shows "1 \<le> round_even z"
proof -
  have "1 \<le> \<lfloor>z\<rfloor>" using assms by simp
  then show ?thesis
    by (simp add: round_even_def Let_def)
qed

text \<open>The rounding of a number that is at least the least positive double is positive.\<close>

lemma round_double_positive:
  assumes "least_double \<le> x"
  shows "round_double x = PlusInf \<or> (\<exists>r. round_double x = Finite r \<and> least_double \<le> r)"
proof -
  have pos: "0 < x"
    using least_double_pos assms by (rule less_le_trans)
  obtain z e where su: "shift_up (fst (shift_down x 0)) (snd (shift_down x 0)) = (z, e)"
    and z: "z * 2 powi e = x" "- 1074 \<le> e" "2 ^ 52 \<le> \<bar>z\<bar> \<or> e = - 1074" "0 < x \<longrightarrow> 0 < z"
    by (rule shifted)
  from z(4) pos have zp: "0 < z" by simp
  have "1 \<le> z"
  proof (cases "2 ^ 52 \<le> \<bar>z\<bar>")
    case True
    with zp show ?thesis by simp
  next
    case False
    with z(3) have "2 powi e = least_double" by (simp only: least_double_def) simp
    with z(1) assms have "1 * least_double \<le> z * least_double" by simp
    from mult_right_le_imp_le [OF this least_double_pos] show ?thesis .
  qed
  then have m: "1 \<le> round_even z"
    by (rule round_even_ge)
  let ?r = "real_of_int (round_even z) * 2 powi e"
  have p: "0 < (2::real) powi e" by (rule zero_less_power_int) simp
  have "least_double \<le> 2 powi e"
    using z(2) by (rule least_double_le)
  also have "\<dots> = 1 * 2 powi e" by simp
  also have "\<dots> \<le> ?r"
    using m p by (intro mult_right_mono) simp_all
  finally have r: "least_double \<le> ?r" .
  with least_double_pos have r0: "?r \<noteq> 0" by linarith
  have nx: "x \<noteq> 0" "\<not> x < 0" using pos by simp_all
  have "round_double x = (if 2 ^ 1024 \<le> \<bar>?r\<bar> then PlusInf else Finite ?r)"
    by (simp only: round_double_shifted [OF su nx(1)] r0 nx(2) signed_inf_def if_False)
  with r show ?thesis
    by (cases "2 ^ 1024 \<le> \<bar>?r\<bar>") (simp_all only: if_True if_False, blast+)
qed

text \<open>A finite result of a rounding is zero or at least the least positive double in magnitude.\<close>

lemma round_double_Finite:
  assumes "round_double x = Finite r"
  shows "r = 0 \<or> least_double \<le> \<bar>r\<bar>"
proof (cases "x = 0")
  case True
  with assms show ?thesis by (simp add: round_double_def)
next
  case False
  obtain z e where su: "shift_up (fst (shift_down x 0)) (snd (shift_down x 0)) = (z, e)"
    and e: "- 1074 \<le> e"
    by (rule shifted)
  let ?m = "round_even z"
  let ?r = "real_of_int ?m * 2 powi e"
  from assms have "r = ?r"
    unfolding round_double_shifted [OF su False] signed_zero_def signed_inf_def
    by (auto split: if_splits)
  have p: "0 < (2::real) powi e" by (rule zero_less_power_int) simp
  show ?thesis
  proof (cases "?m = 0")
    case True
    with \<open>r = ?r\<close> show ?thesis by simp
  next
    case False
    then have "1 \<le> \<bar>?m\<bar>" by simp
    then have m: "(1::real) \<le> \<bar>real_of_int ?m\<bar>"
      by (metis of_int_1_le_iff of_int_abs)
    have "least_double \<le> 2 powi e"
      using e by (rule least_double_le)
    also have "\<dots> = 1 * 2 powi e" by simp
    also have "\<dots> \<le> \<bar>real_of_int ?m\<bar> * 2 powi e"
      using m p by (intro mult_right_mono) simp_all
    also have "\<dots> = \<bar>?r\<bar>"
      using p by (simp only: abs_mult abs_of_pos)
    finally show ?thesis
      using \<open>r = ?r\<close> by simp
  qed
qed

lemma is_double_positive:
  assumes "is_double c" and "0 < c"
  shows "least_double \<le> c"
  using round_double_Finite [of c c] assms by (simp add: is_double_def)


text \<open>
  Two checks of \<open>round_double\<close>.  Every binary64 number, \<open>m * 2^k\<close> with \<open>\<bar>m\<bar> < 2^53\<close> and
  \<open>k\<close> from - 1074 to 971, is a double: it rounds to itself.  And every finite result of
  a rounding is such a number (\<open>\<bar>m\<bar> = 2^53\<close> being \<open>2^52\<close> at the next exponent), no
  farther from the rounded number than half a unit of its last place.
\<close>

lemma round_even_of_int: "round_even (real_of_int n) = n"
  by (simp add: round_even_def)

lemma round_even_near: "\<bar>real_of_int (round_even z) - z\<bar> \<le> 1 / 2"
proof -
  have "real_of_int \<lfloor>z\<rfloor> \<le> z" "z < real_of_int \<lfloor>z\<rfloor> + 1"
    by linarith+
  then show ?thesis
    by (auto simp: round_even_def Let_def)
qed

lemma is_double_binary64:
  assumes m: "\<bar>m\<bar> < 2 ^ 53" and k: "- 1074 \<le> k" "k \<le> 971"
  shows "is_double (real_of_int m * 2 powi k)"
proof (cases "m = 0")
  case True
  then show ?thesis by (simp add: is_double_def round_double_def)
next
  case False
  let ?x = "real_of_int m * 2 powi k"
  have nz: "?x \<noteq> 0" using False by simp
  obtain z e where su: "shift_up (fst (shift_down ?x 0)) (snd (shift_down ?x 0)) = (z, e)"
    and z: "z * 2 powi e = ?x" "- 1074 \<le> e" "2 ^ 52 \<le> \<bar>z\<bar> \<or> e = - 1074"
    by (rule shifted)
  have pk: "0 < (2::real) powi k" and pe: "0 < (2::real) powi e"
    by (simp_all add: zero_less_power_int)
  have ek: "e \<le> k"
  proof (rule ccontr)
    assume "\<not> e \<le> k"
    then have lt: "k + 1 \<le> e" by simp
    with k(1) z(3) have big: "2 ^ 52 \<le> \<bar>z\<bar>" by auto
    have "\<bar>real_of_int m\<bar> < 2 ^ 53"
      using m by (metis of_int_abs of_int_less_numeral_power_cancel_iff)
    then have "\<bar>?x\<bar> < 2 ^ 53 * 2 powi k"
      using pk by (simp add: abs_mult)
    also have "\<dots> = 2 ^ 52 * 2 powi (k + 1)"
      by (simp add: power_int_add)
    also have "\<dots> \<le> 2 ^ 52 * 2 powi e"
      using lt by (intro mult_left_mono power_int_increasing) simp_all
    also have "\<dots> \<le> \<bar>z\<bar> * 2 powi e"
      using big pe by (intro mult_right_mono) simp_all
    also have "\<dots> = \<bar>?x\<bar>"
      using pe by (simp add: z(1) [symmetric] abs_mult)
    finally show False by simp
  qed
  have "z = ?x * 2 powi (- e)"
    using pe by (simp add: z(1) [symmetric] power_int_minus)
  also have "\<dots> = real_of_int m * 2 powi (k - e)"
    by (simp add: power_int_diff power_int_minus divide_simps)
  also have "\<dots> = real_of_int (m * 2 ^ nat (k - e))"
    using ek by (simp add: power_int_def)
  finally have zi: "z = real_of_int (m * 2 ^ nat (k - e))" .
  have r: "real_of_int (round_even z) * 2 powi e = ?x"
    unfolding zi round_even_of_int using z(1) zi by simp
  have "\<bar>real_of_int m\<bar> < 2 ^ 53"
    using m by (metis of_int_abs of_int_less_numeral_power_cancel_iff)
  then have "\<bar>?x\<bar> < 2 ^ 53 * 2 powi k"
    using pk by (simp add: abs_mult)
  also have "\<dots> \<le> 2 ^ 53 * 2 powi 971"
    using k(2) by (intro mult_left_mono power_int_increasing) simp_all
  also have "\<dots> = 2 ^ 1024"
    by (simp add: power_int_def flip: power_add)
  finally have fin: "\<not> 2 ^ 1024 \<le> \<bar>?x\<bar>" by simp
  show ?thesis
    unfolding is_double_def round_double_shifted [OF su nz] r
    using nz fin by simp
qed

lemma round_double_binary64:
  assumes "round_double x = Finite r"
  shows "\<exists>m e. r = real_of_int m * 2 powi e \<and> \<bar>m\<bar> \<le> 2 ^ 53 \<and> - 1074 \<le> e
     \<and> \<bar>r - x\<bar> \<le> 2 powi e / 2"
proof (cases "x = 0")
  case True
  with assms have "r = real_of_int 0 * 2 powi (- 1074)" "\<bar>r - x\<bar> \<le> 2 powi (- 1074) / 2"
    by (simp_all add: round_double_def)
  then show ?thesis
    by (intro exI [of _ 0] exI [of _ "- 1074"]) simp
next
  case False
  obtain z e where su: "shift_up (fst (shift_down x 0)) (snd (shift_down x 0)) = (z, e)"
    and z: "z * 2 powi e = x" "- 1074 \<le> e" "\<bar>z\<bar> < 2 ^ 53"
    by (rule shifted)
  let ?m = "round_even z"
  have pe: "0 < (2::real) powi e"
    by (simp add: zero_less_power_int)
  have near: "\<bar>real_of_int ?m - z\<bar> \<le> 1 / 2"
    by (rule round_even_near)
  with z(3) have "\<bar>real_of_int ?m\<bar> < 2 ^ 53 + 1" by linarith
  then have "real_of_int \<bar>?m\<bar> < real_of_int (2 ^ 53 + 1)" by simp
  then have "\<bar>?m\<bar> < 2 ^ 53 + 1" by (simp only: of_int_less_iff)
  then have m: "\<bar>?m\<bar> \<le> 2 ^ 53" by simp
  have "r = real_of_int ?m * 2 powi e \<or> (r = 0 \<and> real_of_int ?m * 2 powi e = 0)"
    using assms unfolding round_double_shifted [OF su False] signed_zero_def signed_inf_def
    by (auto split: if_splits)
  then have r: "r = real_of_int ?m * 2 powi e" by auto
  have "\<bar>r - x\<bar> = \<bar>real_of_int ?m - z\<bar> * 2 powi e"
    using pe by (simp add: r z(1) [symmetric] abs_mult flip: left_diff_distrib)
  also have "\<dots> \<le> 1 / 2 * 2 powi e"
    using near pe by (intro mult_right_mono) simp_all
  finally have "\<bar>r - x\<bar> \<le> 2 powi e / 2" by simp
  with r m z(2) show ?thesis by blast
qed


section \<open>The centroid\<close>

lemma foldl_centroid_accum:
  "foldl (centroid_accum wb) (a, b, c) ps =
     (foldl dadd a (map (\<lambda>p. dmul (centroid_weight wb p) (int_to_double (m_xbin p))) ps),
      foldl dadd b (map (\<lambda>p. dmul (centroid_weight wb p) (int_to_double (m_ybin p))) ps),
      foldl dadd c (map (centroid_weight wb) ps))"
  by (induction ps arbitrary: a b c) (simp_all add: centroid_accum_def Let_def)

lemma centroid_weight_True:
  "centroid_weight True = (\<lambda>p. dmul (Finite (m_scale p)) (Finite (m_value p)))"
  by (rule ext) (simp add: centroid_weight_def)

lemma centroid_weight_False: "centroid_weight False = (\<lambda>p. Finite (m_scale p))"
  by (rule ext) (simp add: centroid_weight_def)

text \<open>The sums of the loop are the sums of the specification, in doubles.\<close>

lemma centroid_sums_True:
  "centroid_sums obj True =
     (double_sum (map (\<lambda>p. dmul (dmul (Finite (m_scale p)) (Finite (m_value p)))
          (int_to_double (m_xbin p))) (m_pixInfo obj)),
      double_sum (map (\<lambda>p. dmul (dmul (Finite (m_scale p)) (Finite (m_value p)))
          (int_to_double (m_ybin p))) (m_pixInfo obj)),
      double_weighted_denominator obj)"
  by (simp add: centroid_sums_def foldl_centroid_accum double_sum_def
      double_weighted_denominator_def centroid_weight_True)

lemma centroid_sums_False:
  "centroid_sums obj False =
     (double_sum (map (\<lambda>p. dmul (Finite (m_scale p)) (int_to_double (m_xbin p))) (m_pixInfo obj)),
      double_sum (map (\<lambda>p. dmul (Finite (m_scale p)) (int_to_double (m_ybin p))) (m_pixInfo obj)),
      double_scale_sum obj)"
  by (simp add: centroid_sums_def foldl_centroid_accum double_sum_def
      double_scale_sum_def centroid_weight_False)

lemma centroid_True_pos:
  assumes "dgt (double_weighted_denominator obj) (Finite 0)"
  shows "lutzObject_centroid obj True = Some (double_weighted_average obj)"
  using assms
  by (subst lutzObject_centroid.simps)
     (simp add: centroid_sums_True double_weighted_average_def)

lemma centroid_True_nonpos:
  assumes "\<not> dgt (double_weighted_denominator obj) (Finite 0)"
  shows "lutzObject_centroid obj True = lutzObject_centroid obj False"
  using assms
  by (subst lutzObject_centroid.simps) (simp add: centroid_sums_True)

lemma centroid_False_pos:
  assumes "dgt (double_scale_sum obj) (Finite 0)"
  shows "lutzObject_centroid obj False = Some (double_unweighted_average obj)"
  using assms
  by (subst lutzObject_centroid.simps)
     (simp add: centroid_sums_False double_unweighted_average_def)

text \<open>A call returns only through a guard that holds.\<close>

lemma centroid_returns_only_if:
  assumes "lutzObject_centroid obj wb = Some r"
  shows "dgt (double_scale_sum obj) (Finite 0)
     \<or> (wb \<and> dgt (double_weighted_denominator obj) (Finite 0))"
proof (rule lutzObject_centroid.raw_induct
    [where P = "\<lambda>obj wb r. dgt (double_scale_sum obj) (Finite 0)
       \<or> (wb \<and> dgt (double_weighted_denominator obj) (Finite 0))", OF _ assms])
  fix centroid :: "lutzObject \<Rightarrow> bool \<Rightarrow> (double \<times> double) option" and obj wb r
  assume IH: "\<And>obj wb r. centroid obj wb = Some r \<Longrightarrow>
      dgt (double_scale_sum obj) (Finite 0) \<or> (wb \<and> dgt (double_weighted_denominator obj) (Finite 0))"
    and eq: "(case centroid_sums obj wb of
        (xcenter, ycenter, weight_sum) \<Rightarrow>
          if dgt weight_sum (Finite 0) then Some (ddiv xcenter weight_sum, ddiv ycenter weight_sum)
          else centroid obj False) = Some r"
  show "dgt (double_scale_sum obj) (Finite 0) \<or> (wb \<and> dgt (double_weighted_denominator obj) (Finite 0))"
  proof (cases "dgt (snd (snd (centroid_sums obj wb))) (Finite 0)")
    case True
    then show ?thesis
      by (cases wb) (simp_all add: centroid_sums_True centroid_sums_False)
  next
    case False
    with eq have "centroid obj False = Some r"
      by (simp add: case_prod_unfold)
    from IH [OF this] show ?thesis by simp
  qed
qed

lemma centroid_False_nonpos:
  assumes "\<not> dgt (double_scale_sum obj) (Finite 0)"
  shows "lutzObject_centroid obj False = None"
proof (cases "lutzObject_centroid obj False")
  case None
  then show ?thesis .
next
  case (Some r)
  from centroid_returns_only_if [OF this] assms show ?thesis by simp
qed

text \<open>Operations that do not round.\<close>

lemma dmul_exact:
  assumes "denotes d a" and "denotes d' b" and "is_double (a * b)"
  shows "denotes (dmul d d') (a * b)"
proof (cases "a = 0 \<or> b = 0")
  case True
  with assms(1,2) have "is_zero d \<or> is_zero d'" "\<not> is_inf d" "\<not> is_inf d'" "d \<noteq> NaN" "d' \<noteq> NaN"
    by (auto simp: denotes_def is_zero_def is_inf_def)
  with True show ?thesis
    by (auto simp: dmul_def denotes_def signed_zero_def)
next
  case False
  with assms(1,2) have "d = Finite a" "d' = Finite b"
    by (simp_all add: denotes_def)
  with False assms(3) show ?thesis
    by (simp add: dmul_def denotes_def is_zero_def is_inf_def is_double_def)
qed

lemma dadd_exact:
  assumes "denotes d r" and "is_double (x + r)"
  shows "dadd (Finite x) d = Finite (x + r)"
proof (cases "x = 0 \<and> r = 0")
  case True
  with assms(1) show ?thesis
    by (auto simp: dadd_def denotes_def is_zero_def is_inf_def signed_zero_def)
next
  case False
  with assms show ?thesis
    by (auto simp: dadd_def denotes_def is_zero_def is_inf_def is_double_def)
qed

lemma ddiv_positive:
  assumes "0 < w"
  shows "ddiv (Finite x) (Finite w) = round_double (x / w)"
  using assms
  by (auto simp: ddiv_def is_zero_def is_inf_def signed_zero_def round_double_def)

lemma no_rounding_sums:
  assumes "no_rounding_from wb (x, y, w) ps"
  shows "foldl (centroid_accum wb) (Finite x, Finite y, Finite w) ps =
     (Finite (x + (\<Sum>p\<leftarrow>ps. (if wb then m_scale p * m_value p else m_scale p) * real_of_int (m_xbin p))),
      Finite (y + (\<Sum>p\<leftarrow>ps. (if wb then m_scale p * m_value p else m_scale p) * real_of_int (m_ybin p))),
      Finite (w + (\<Sum>p\<leftarrow>ps. (if wb then m_scale p * m_value p else m_scale p))))"
  using assms
proof (induction ps arbitrary: x y w)
  case Nil
  then show ?case by simp
next
  case (Cons p ps)
  let ?k = "if wb then m_scale p * m_value p else m_scale p"
  let ?kx = "?k * real_of_int (m_xbin p)" and ?ky = "?k * real_of_int (m_ybin p)"
  from Cons.prems have d: "is_double (real_of_int (m_xbin p))" "is_double (real_of_int (m_ybin p))"
      "is_double ?k" "is_double ?kx" "is_double ?ky"
      "is_double (x + ?kx)" "is_double (y + ?ky)" "is_double (w + ?k)"
    and rest: "no_rounding_from wb (x + ?kx, y + ?ky, w + ?k) ps"
    by (simp_all add: Let_def)
  have k: "denotes (centroid_weight wb p) ?k"
  proof (cases wb)
    case True
    have "denotes (dmul (Finite (m_scale p)) (Finite (m_value p))) (m_scale p * m_value p)"
      using d(3) True by (intro dmul_exact) (simp_all add: denotes_def)
    with True show ?thesis by (simp add: centroid_weight_def)
  next
    case False
    then show ?thesis by (simp add: centroid_weight_def denotes_def)
  qed
  have cx: "int_to_double (m_xbin p) = Finite (real_of_int (m_xbin p))"
    and cy: "int_to_double (m_ybin p) = Finite (real_of_int (m_ybin p))"
    using d(1,2) by (simp_all add: int_to_double_def is_double_def)
  have kx: "denotes (dmul (centroid_weight wb p) (int_to_double (m_xbin p))) ?kx"
    unfolding cx using k _ d(4) by (rule dmul_exact) (simp add: denotes_def)
  have ky: "denotes (dmul (centroid_weight wb p) (int_to_double (m_ybin p))) ?ky"
    unfolding cy using k _ d(5) by (rule dmul_exact) (simp add: denotes_def)
  have step: "centroid_accum wb (Finite x, Finite y, Finite w) p =
      (Finite (x + ?kx), Finite (y + ?ky), Finite (w + ?k))"
    by (simp only: centroid_accum_def Let_def prod.case
        dadd_exact [OF kx d(6)] dadd_exact [OF ky d(7)] dadd_exact [OF k d(8)])
  show ?case
    by (simp only: foldl_Cons step Cons.IH [OF rest]) (simp add: algebra_simps)
qed

text \<open>Nothing rounds: the sums are the real sums, and the averages are the real averages, rounded.\<close>

lemma no_rounding_True:
  assumes "no_rounding True obj"
  shows "centroid_sums obj True =
     (Finite (\<Sum>p\<leftarrow>m_pixInfo obj. m_scale p * m_value p * real_of_int (m_xbin p)),
      Finite (\<Sum>p\<leftarrow>m_pixInfo obj. m_scale p * m_value p * real_of_int (m_ybin p)),
      Finite (weighted_denominator obj))"
  using no_rounding_sums [of True 0 0 0 "m_pixInfo obj"] assms
  by (simp add: no_rounding_def centroid_sums_def weighted_denominator_def)

lemma no_rounding_False:
  assumes "no_rounding False obj"
  shows "centroid_sums obj False =
     (Finite (\<Sum>p\<leftarrow>m_pixInfo obj. m_scale p * real_of_int (m_xbin p)),
      Finite (\<Sum>p\<leftarrow>m_pixInfo obj. m_scale p * real_of_int (m_ybin p)),
      Finite (scale_sum obj))"
  using no_rounding_sums [of False 0 0 0 "m_pixInfo obj"] assms
  by (simp add: no_rounding_def centroid_sums_def scale_sum_def)

lemma exact_weighted:
  assumes "no_rounding True obj"
  shows "double_weighted_denominator obj = Finite (weighted_denominator obj)"
    and "0 < weighted_denominator obj \<Longrightarrow>
      double_weighted_average obj = round_pair (weighted_average obj)"
proof -
  from no_rounding_True [OF assms] centroid_sums_True [of obj]
  have s: "double_sum (map (\<lambda>p. dmul (dmul (Finite (m_scale p)) (Finite (m_value p)))
          (int_to_double (m_xbin p))) (m_pixInfo obj))
        = Finite (\<Sum>p\<leftarrow>m_pixInfo obj. m_scale p * m_value p * real_of_int (m_xbin p))"
      "double_sum (map (\<lambda>p. dmul (dmul (Finite (m_scale p)) (Finite (m_value p)))
          (int_to_double (m_ybin p))) (m_pixInfo obj))
        = Finite (\<Sum>p\<leftarrow>m_pixInfo obj. m_scale p * m_value p * real_of_int (m_ybin p))"
      "double_weighted_denominator obj = Finite (weighted_denominator obj)"
    by simp_all
  show "double_weighted_denominator obj = Finite (weighted_denominator obj)"
    by (rule s(3))
  show "double_weighted_average obj = round_pair (weighted_average obj)"
    if "0 < weighted_denominator obj"
    using that
    by (simp add: double_weighted_average_def s ddiv_positive round_pair_def weighted_average_def)
qed

lemma exact_unweighted:
  assumes "no_rounding False obj"
  shows "double_scale_sum obj = Finite (scale_sum obj)"
    and "0 < scale_sum obj \<Longrightarrow> double_unweighted_average obj = round_pair (unweighted_average obj)"
proof -
  from no_rounding_False [OF assms] centroid_sums_False [of obj]
  have s: "double_sum (map (\<lambda>p. dmul (Finite (m_scale p)) (int_to_double (m_xbin p))) (m_pixInfo obj))
        = Finite (\<Sum>p\<leftarrow>m_pixInfo obj. m_scale p * real_of_int (m_xbin p))"
      "double_sum (map (\<lambda>p. dmul (Finite (m_scale p)) (int_to_double (m_ybin p))) (m_pixInfo obj))
        = Finite (\<Sum>p\<leftarrow>m_pixInfo obj. m_scale p * real_of_int (m_ybin p))"
      "double_scale_sum obj = Finite (scale_sum obj)"
    by simp_all
  show "double_scale_sum obj = Finite (scale_sum obj)"
    by (rule s(3))
  show "double_unweighted_average obj = round_pair (unweighted_average obj)"
    if "0 < scale_sum obj"
    using that
    by (simp add: double_unweighted_average_def s ddiv_positive round_pair_def unweighted_average_def)
qed

text \<open>Scales that are not negative add up to 0.0 or to a positive double.\<close>

lemma positive_double_dgt:
  assumes "positive_double d"
  shows "dgt d (Finite 0)"
proof (cases d)
  case (Finite r)
  with assms have "least_double \<le> r" by (simp add: positive_double_def)
  with least_double_pos have "0 < r" by linarith
  with Finite show ?thesis by (simp add: dgt_def)
qed (use assms in \<open>simp_all add: positive_double_def dgt_def\<close>)

lemma dadd_scale:
  assumes w: "w = Finite 0 \<or> positive_double w" and s: "is_double s" "0 \<le> s"
  shows "(dadd w (Finite s) = Finite 0 \<or> positive_double (dadd w (Finite s)))
     \<and> (positive_double w \<or> 0 < s \<longrightarrow> positive_double (dadd w (Finite s)))"
proof (cases "positive_double w")
  case True
  have "positive_double (dadd w (Finite s))"
  proof (cases w)
    case (Finite r)
    with True have r: "least_double \<le> r" by (simp add: positive_double_def)
    with least_double_pos have "0 < r" by linarith
    then have eq: "dadd w (Finite s) = round_double (r + s)"
      using Finite by (simp add: dadd_def is_zero_def is_inf_def)
    from r s(2) have "least_double \<le> r + s" by simp
    from round_double_positive [OF this] show ?thesis
      by (auto simp: eq positive_double_def)
  next
    case PlusInf
    then show ?thesis by (simp add: dadd_def is_inf_def positive_double_def)
  qed (use True in \<open>simp_all add: positive_double_def\<close>)
  then show ?thesis by simp
next
  case False
  with w have w0: "w = Finite 0" by simp
  show ?thesis
  proof (cases "s = 0")
    case True
    with w0 False show ?thesis
      by (simp add: dadd_def is_zero_def is_inf_def signed_zero_def)
  next
    case nz: False
    with s(2) have "0 < s" by simp
    from is_double_positive [OF s(1) this] have "positive_double (Finite s)"
      by (simp add: positive_double_def)
    moreover have "dadd w (Finite s) = Finite s"
      using w0 nz s(1) by (simp add: dadd_def is_zero_def is_inf_def is_double_def)
    ultimately show ?thesis by simp
  qed
qed

lemma scale_sum_positive:
  assumes "\<forall>p\<in>set ps. is_double (m_scale p) \<and> 0 \<le> m_scale p"
    and "w = Finite 0 \<or> positive_double w"
  shows "(foldl dadd w (map (\<lambda>p. Finite (m_scale p)) ps) = Finite 0
        \<or> positive_double (foldl dadd w (map (\<lambda>p. Finite (m_scale p)) ps)))
     \<and> (positive_double w \<or> (\<exists>p\<in>set ps. 0 < m_scale p)
        \<longrightarrow> positive_double (foldl dadd w (map (\<lambda>p. Finite (m_scale p)) ps)))"
  using assms
proof (induction ps arbitrary: w)
  case Nil
  then show ?case by simp
next
  case (Cons p ps)
  from Cons.prems(1) have p: "is_double (m_scale p)" "0 \<le> m_scale p"
    and ps: "\<forall>p\<in>set ps. is_double (m_scale p) \<and> 0 \<le> m_scale p"
    by simp_all
  let ?w = "dadd w (Finite (m_scale p))"
  from dadd_scale [OF Cons.prems(2) p]
  have w: "?w = Finite 0 \<or> positive_double ?w"
    and wp: "positive_double w \<or> 0 < m_scale p \<longrightarrow> positive_double ?w"
    by simp_all
  from Cons.IH [OF ps w] wp show ?case
    by auto
qed

lemma double_scale_sum_positive:
  assumes "\<forall>p\<in>set (m_pixInfo obj). is_double (m_scale p) \<and> 0 \<le> m_scale p"
    and "\<exists>p\<in>set (m_pixInfo obj). 0 < m_scale p"
  shows "dgt (double_scale_sum obj) (Finite 0)"
proof -
  from scale_sum_positive [OF assms(1), of "Finite 0"] assms(2)
  have "positive_double (double_scale_sum obj)"
    by (simp add: double_scale_sum_def double_sum_def)
  then show ?thesis
    by (rule positive_double_dgt)
qed

text \<open>
  The sums on the example objects.  \<open>double_eval\<close> holds the equations that evaluate the
  double arithmetic on numerals.
\<close>

lemmas double_eval = round_double_def shift_up.simps shift_down.simps round_even_def
  signed_zero_def signed_inf_def dadd_def dmul_def ddiv_def dgt_def is_zero_def is_inf_def
  int_to_double_def is_double_def double_sum_def

lemma skewed_pixInfo: "m_pixInfo skewed = [pixData_ctor 0 0 1, pixData_ctor 1 0 (- 3)]"
  by (simp add: skewed_def lutzObject_append_list_def lutzObject_append_def
      lutzObject_contains_def lutzObject_ctor_def pixData_ctor_def same_position_def)

lemma bright_corner_pixInfo: "m_pixInfo bright_corner = [pixData_ctor 0 0 1, pixData_ctor 1 0 3]"
  by (simp add: bright_corner_def lutzObject_append_list_def lutzObject_append_def
      lutzObject_contains_def lutzObject_ctor_def pixData_ctor_def same_position_def)

lemma lopsided_pixInfo:
  "m_pixInfo lopsided = [pixData_ctor 0 0 1, (pixData_ctor 1 0 1)\<lparr>m_scale := - 2\<rparr>]"
  by (simp add: lopsided_def lutzObject_append_list_def lutzObject_append_def
      lutzObject_contains_def lutzObject_ctor_def pixData_ctor_def same_position_def)

lemma absorbed_pixInfo:
  "m_pixInfo absorbed =
     [pixData_ctor 0 0 (10 ^ 16), pixData_ctor 1 0 1, pixData_ctor 2 0 (- (10 ^ 16))]"
  by (simp add: absorbed_def lutzObject_append_list_def lutzObject_append_def
      lutzObject_contains_def lutzObject_ctor_def pixData_ctor_def same_position_def)

lemma cancelling_pixInfo:
  "m_pixInfo cancelling =
     [(pixData_ctor 0 0 1)\<lparr>m_scale := 10 ^ 16\<rparr>, pixData_ctor 1 0 1,
      (pixData_ctor 2 0 1)\<lparr>m_scale := - (10 ^ 16)\<rparr>]"
  by (simp add: cancelling_def lutzObject_append_list_def lutzObject_append_def
      lutzObject_contains_def lutzObject_ctor_def pixData_ctor_def same_position_def)

lemma skewed_weighted:
  "no_rounding True skewed" "double_weighted_denominator skewed = Finite (- 2)"
  by (simp_all add: no_rounding_def double_weighted_denominator_def skewed_pixInfo
      pixData_ctor_def double_eval)

lemma skewed_unweighted:
  "no_rounding False skewed" "double_scale_sum skewed = Finite 2"
  "double_unweighted_average skewed = (Finite (1 / 2), Finite 0)"
  by (simp_all add: no_rounding_def double_scale_sum_def double_unweighted_average_def
      skewed_pixInfo pixData_ctor_def double_eval)

lemma bright_corner_weighted:
  "no_rounding True bright_corner" "double_weighted_denominator bright_corner = Finite 4"
  "double_weighted_average bright_corner = (Finite (3 / 4), Finite 0)"
  by (simp_all add: no_rounding_def double_weighted_denominator_def double_weighted_average_def
      bright_corner_pixInfo pixData_ctor_def double_eval)

lemma absorbed_weighted:
  "double_weighted_denominator absorbed = Finite 0" "\<not> no_rounding True absorbed"
  by (simp_all add: no_rounding_def double_weighted_denominator_def
      absorbed_pixInfo pixData_ctor_def double_eval)

lemma absorbed_unweighted:
  "double_scale_sum absorbed = Finite 3"
  "double_unweighted_average absorbed = (Finite 1, Finite 0)"
  by (simp_all add: double_scale_sum_def double_unweighted_average_def
      absorbed_pixInfo pixData_ctor_def double_eval)

lemma lopsided_sums:
  "double_scale_sum lopsided = Finite (- 1)" "double_weighted_denominator lopsided = Finite (- 1)"
  by (simp_all add: double_scale_sum_def double_weighted_denominator_def
      lopsided_pixInfo pixData_ctor_def double_eval)

lemma cancelling_sums:
  "double_scale_sum cancelling = Finite 0" "double_weighted_denominator cancelling = Finite 0"
  "scale_sum cancelling = 1"
  by (simp_all add: double_scale_sum_def double_weighted_denominator_def scale_sum_def
      cancelling_pixInfo pixData_ctor_def double_eval)

lemma saturated_pixInfo:
  "m_pixInfo saturated = [pixData_ctor 0 0 (2 ^ 1023), pixData_ctor 1 0 (2 ^ 1023)]"
  by (simp add: saturated_def lutzObject_append_list_def lutzObject_append_def
      lutzObject_contains_def lutzObject_ctor_def pixData_ctor_def same_position_def)

text \<open>The largest power of 2 that is a double, and the least that overflows.\<close>

lemma round_double_2_1023:
  "round_double (2 ^ 1023) = Finite (2 ^ 1023)"
  by (simp add: round_double_def shift_up.simps shift_down.simps round_even_def
  signed_zero_def signed_inf_def)

lemma round_double_2_1024:
  "round_double (2 ^ 1024) = PlusInf"
  by (simp add: round_double_def shift_up.simps shift_down.simps round_even_def
  signed_zero_def signed_inf_def)

lemma round_small: "round_double 0 = Finite 0" "round_double 1 = Finite 1"
  by (simp_all add: double_eval)

lemma saturated_weighted:
  "double_weighted_denominator saturated = PlusInf"
  "double_weighted_average saturated = (Finite 0, Finite 0)"
proof -
  have w: "dmul (Finite 1) (Finite (2 ^ 1023)) = Finite (2 ^ 1023)"
    using round_double_2_1023 by (simp add: dmul_def is_zero_def is_inf_def)
  have s: "dadd (Finite (2 ^ 1023)) (Finite (2 ^ 1023)) = PlusInf"
    using round_double_2_1024 by (simp add: dadd_def is_zero_def is_inf_def)
  have s0: "dadd (Finite 0) (Finite (2 ^ 1023)) = Finite (2 ^ 1023)"
    using round_double_2_1023 by (simp add: dadd_def is_zero_def is_inf_def)
  have z: "dadd (Finite 0) (Finite 0) = Finite 0"
    by (simp add: dadd_def is_zero_def is_inf_def signed_zero_def)
  have x0: "dmul (Finite (2 ^ 1023)) (Finite 0) = Finite 0"
    by (simp add: dmul_def is_zero_def is_inf_def signed_zero_def)
  have x1: "dmul (Finite (2 ^ 1023)) (Finite 1) = Finite (2 ^ 1023)"
    using round_double_2_1023 by (simp add: dmul_def is_zero_def is_inf_def)
  have q: "ddiv (Finite (2 ^ 1023)) PlusInf = Finite 0" "ddiv (Finite 0) PlusInf = Finite 0"
    by (simp_all add: ddiv_def is_zero_def is_inf_def signed_zero_def)
  show d: "double_weighted_denominator saturated = PlusInf"
    by (simp only: double_weighted_denominator_def double_sum_def saturated_pixInfo
        pixData_ctor_def list.map foldl_Cons foldl_Nil pixData.simps w s0 s)
  show "double_weighted_average saturated = (Finite 0, Finite 0)"
    unfolding double_weighted_average_def d
    by (simp only: double_sum_def saturated_pixInfo
        pixData_ctor_def list.map foldl_Cons foldl_Nil pixData.simps int_to_double_def
        of_int_0 of_int_1 round_small w x0 x1 z s0 q)
qed

text \<open>
  Claim C9, as stated, promises the weighted average whenever the weighted denominator
  is nonzero.  It fails on the object holding \<open>(0, 0)\<close> with value 1 and \<open>(1, 0)\<close> with
  value -3.  Nothing rounds there: the weighted denominator is -2, in the real numbers
  and in doubles, the weighted average is \<open>(3/2, 0)\<close>, and the code returns the
  unweighted \<open>(1/2, 0)\<close>.
\<close>

theorem centroid_negative_denominator:
  "no_rounding True skewed \<and> weighted_denominator skewed = - 2
     \<and> double_weighted_denominator skewed = Finite (- 2)
     \<and> weighted_average skewed = (3 / 2, 0)
     \<and> lutzObject_centroid skewed True = Some (Finite (1 / 2), Finite 0)"
proof -
  have "lutzObject_centroid skewed True = Some (Finite (1 / 2), Finite 0)"
    using centroid_True_nonpos [of skewed] centroid_False_pos [of skewed]
    by (simp add: skewed_weighted skewed_unweighted dgt_def)
  moreover have "weighted_denominator skewed = - 2" "weighted_average skewed = (3 / 2, 0)"
    by (simp_all add: weighted_denominator_def weighted_average_def skewed_pixInfo pixData_ctor_def)
  ultimately show ?thesis
    by (simp add: skewed_weighted)
qed

text \<open>
  Claim C9, amended.  With \<open>weight_bins = true\<close> the centroid is the value-weighted
  average (the sum of \<open>scale * value * coordinate\<close> divided by the sum of \<open>scale * value\<close>,
  every product, partial sum and quotient rounded to double) whenever the weighted
  denominator is strictly positive.  Whenever it is zero, negative or NaN the call falls
  back to exactly what the unweighted call does, and that is the average with
  scale-only weights when the sum of the scales is strictly positive, and no result
  otherwise.  When nothing rounds in the sums, the denominators are the sums in the
  real numbers, and the averages are the averages in the real numbers, rounded once.
\<close>

theorem centroid_weighted_or_fallback:
  "(dgt (double_weighted_denominator obj) (Finite 0) \<longrightarrow>
      lutzObject_centroid obj True = Some (double_weighted_average obj))
   \<and> (\<not> dgt (double_weighted_denominator obj) (Finite 0) \<longrightarrow>
      lutzObject_centroid obj True = lutzObject_centroid obj False)
   \<and> lutzObject_centroid obj False =
      (if dgt (double_scale_sum obj) (Finite 0) then Some (double_unweighted_average obj)
       else None)
   \<and> (no_rounding True obj \<longrightarrow>
      double_weighted_denominator obj = Finite (weighted_denominator obj)
      \<and> (0 < weighted_denominator obj \<longrightarrow>
           double_weighted_average obj = round_pair (weighted_average obj)))
   \<and> (no_rounding False obj \<longrightarrow>
      double_scale_sum obj = Finite (scale_sum obj)
      \<and> (0 < scale_sum obj \<longrightarrow>
           double_unweighted_average obj = round_pair (unweighted_average obj)))"
  using centroid_True_pos [of obj] centroid_True_nonpos [of obj]
    centroid_False_pos [of obj] centroid_False_nonpos [of obj]
    exact_weighted [of obj] exact_unweighted [of obj]
  by simp

text \<open>
  The theorem on four objects.  On \<open>bright_corner\<close> (values 1 and 3) nothing rounds and
  the result is the weighted average \<open>(3/4, 0)\<close>.  On \<open>skewed\<close> the denominator is
  negative and the result is the unweighted average \<open>(1/2, 0)\<close>.  On \<open>absorbed\<close> the
  denominator is 1 in the real numbers and 0.0 in doubles, and the result is the
  unweighted average \<open>(1, 0)\<close>.  On \<open>saturated\<close> the denominator is infinite, and the
  result is \<open>(0, 0)\<close>.
\<close>

theorem centroid_weighted_or_fallback_witness:
  "dgt (double_weighted_denominator bright_corner) (Finite 0)
   \<and> no_rounding True bright_corner \<and> 0 < weighted_denominator bright_corner
   \<and> weighted_average bright_corner = (3 / 4, 0)
   \<and> lutzObject_centroid bright_corner True = Some (Finite (3 / 4), Finite 0)
   \<and> \<not> dgt (double_weighted_denominator skewed) (Finite 0)
   \<and> no_rounding False skewed \<and> 0 < scale_sum skewed
   \<and> unweighted_average skewed = (1 / 2, 0)
   \<and> lutzObject_centroid skewed True = Some (Finite (1 / 2), Finite 0)
   \<and> weighted_denominator absorbed = 1
   \<and> double_weighted_denominator absorbed = Finite 0
   \<and> lutzObject_centroid absorbed True = Some (Finite 1, Finite 0)
   \<and> double_weighted_denominator saturated = PlusInf
   \<and> lutzObject_centroid saturated True = Some (Finite 0, Finite 0)"
proof -
  have b: "0 < weighted_denominator bright_corner" "weighted_average bright_corner = (3 / 4, 0)"
    by (simp_all add: weighted_denominator_def weighted_average_def bright_corner_pixInfo
        pixData_ctor_def)
  have s: "0 < scale_sum skewed" "unweighted_average skewed = (1 / 2, 0)"
    by (simp_all add: scale_sum_def unweighted_average_def skewed_pixInfo pixData_ctor_def)
  have a: "weighted_denominator absorbed = 1"
    by (simp add: weighted_denominator_def absorbed_pixInfo pixData_ctor_def)
  have r: "round_pair (3 / 4, 0) = (Finite (3 / 4), Finite 0)"
      "round_pair (1 / 2, 0) = (Finite (1 / 2), Finite 0)"
    by (simp_all add: round_pair_def double_eval)
  from centroid_weighted_or_fallback [of bright_corner] centroid_weighted_or_fallback [of skewed]
    centroid_weighted_or_fallback [of absorbed] centroid_weighted_or_fallback [of saturated]
  show ?thesis
    by (simp add: bright_corner_weighted skewed_weighted skewed_unweighted absorbed_weighted
        absorbed_unweighted saturated_weighted b s a r dgt_def)
qed

text \<open>
  Claim C10, as stated, promises termination as soon as one pixel has a strictly positive
  weight-scale.  It fails on the object holding a pixel of scale 1 and a pixel of scale
  -2 (both of value 1): the sum of the scales is -1, the unweighted call recurses for
  ever, and so does the weighted call, whose sum of weights is -1 as well.  It also
  fails on the scales \<open>10^16\<close>, 1 and \<open>- 10^16\<close>, whose sum is 1 in the real numbers and
  0.0 in doubles.
\<close>

theorem centroid_positive_scale_diverges:
  "list_ex (\<lambda>p. 0 < m_scale p) (m_pixInfo lopsided)
     \<and> list_all (\<lambda>p. is_double (m_scale p) \<and> is_double (m_value p)) (m_pixInfo lopsided)
     \<and> lutzObject_centroid lopsided False = None
     \<and> lutzObject_centroid lopsided True = None
     \<and> list_ex (\<lambda>p. 0 < m_scale p) (m_pixInfo cancelling)
     \<and> list_all (\<lambda>p. is_double (m_scale p) \<and> is_double (m_value p)) (m_pixInfo cancelling)
     \<and> scale_sum cancelling = 1
     \<and> lutzObject_centroid cancelling False = None
     \<and> lutzObject_centroid cancelling True = None"
proof -
  have "lutzObject_centroid lopsided False = None" "lutzObject_centroid cancelling False = None"
    by (simp_all add: centroid_False_nonpos lopsided_sums cancelling_sums dgt_def)
  moreover have "lutzObject_centroid lopsided True = lutzObject_centroid lopsided False"
      "lutzObject_centroid cancelling True = lutzObject_centroid cancelling False"
    by (simp_all add: centroid_True_nonpos lopsided_sums cancelling_sums dgt_def)
  moreover have "list_all (\<lambda>p. is_double (m_scale p) \<and> is_double (m_value p)) (m_pixInfo lopsided)"
      "list_all (\<lambda>p. is_double (m_scale p) \<and> is_double (m_value p)) (m_pixInfo cancelling)"
    by (simp_all add: lopsided_pixInfo cancelling_pixInfo pixData_ctor_def double_eval)
  ultimately show ?thesis
    by (simp add: lopsided_pixInfo cancelling_pixInfo cancelling_sums pixData_ctor_def)
qed

text \<open>
  Claim C10, amended.  For every object whose weight-scales are doubles, none of them
  negative and at least one strictly positive, the centroid returns for both settings
  of \<open>weight_bins\<close>.  The sum of the scales that the unweighted call accumulates is
  strictly positive, so that call meets its own guard and returns without calling
  itself, and a weighted call falls back at most once.
\<close>

theorem centroid_terminates:
  assumes "\<forall>p\<in>set (m_pixInfo obj). is_double (m_scale p) \<and> 0 \<le> m_scale p"
    and "\<exists>p\<in>set (m_pixInfo obj). 0 < m_scale p"
  shows "snd (snd (centroid_sums obj False)) = double_scale_sum obj
     \<and> dgt (double_scale_sum obj) (Finite 0)
     \<and> lutzObject_centroid obj False = Some (double_unweighted_average obj)
     \<and> lutzObject_centroid obj True =
         Some (if dgt (double_weighted_denominator obj) (Finite 0)
               then double_weighted_average obj else double_unweighted_average obj)"
proof -
  have g: "dgt (double_scale_sum obj) (Finite 0)"
    using assms by (rule double_scale_sum_positive)
  then have f: "lutzObject_centroid obj False = Some (double_unweighted_average obj)"
    by (rule centroid_False_pos)
  have t: "lutzObject_centroid obj True =
         Some (if dgt (double_weighted_denominator obj) (Finite 0)
               then double_weighted_average obj else double_unweighted_average obj)"
    using centroid_True_pos [of obj] centroid_True_nonpos [of obj] f
    by (cases "dgt (double_weighted_denominator obj) (Finite 0)") simp_all
  from f g t show ?thesis
    by (simp add: centroid_sums_False)
qed

text \<open>
  The theorem on \<open>skewed\<close>, whose two scales are 1: both calls return the unweighted
  average \<open>(1/2, 0)\<close>, the weighted one after falling back.
\<close>

theorem centroid_terminates_witness:
  "list_all (\<lambda>p. is_double (m_scale p) \<and> 0 \<le> m_scale p) (m_pixInfo skewed)
     \<and> list_ex (\<lambda>p. 0 < m_scale p) (m_pixInfo skewed)
     \<and> dgt (double_scale_sum skewed) (Finite 0)
     \<and> lutzObject_centroid skewed False = Some (Finite (1 / 2), Finite 0)
     \<and> lutzObject_centroid skewed True = Some (Finite (1 / 2), Finite 0)"
proof -
  have a: "\<forall>p\<in>set (m_pixInfo skewed). is_double (m_scale p) \<and> 0 \<le> m_scale p"
    by (simp add: skewed_pixInfo pixData_ctor_def double_eval)
  have b: "\<exists>p\<in>set (m_pixInfo skewed). 0 < m_scale p"
    by (simp add: skewed_pixInfo pixData_ctor_def)
  from centroid_terminates [OF a b] a b show ?thesis
    by (simp add: skewed_weighted skewed_unweighted dgt_def list_all_iff list_ex_iff)
qed


section \<open>Runs on the example inputs\<close>

lemma run_arch_4x4:
  "case run arch_4x4 of
     Inl e \<Rightarrow> False
   | Inr s \<Rightarrow> map positions (m_Objects s) = [[(0, 1), (1, 0), (2, 0), (3, 1), (3, 3)]]"
  by code_simp

lemma run_arch_4x3:
  "case run arch_4x3 of
     Inl e \<Rightarrow> False
   | Inr s \<Rightarrow> map positions (m_Objects s) = [[(0, 1), (1, 0), (2, 0), (3, 1)]]
       \<and> pixel_positions (m_INFO s ! 2) = [(2, 2)]"
  by code_simp

lemma run_arch_4x3_min5:
  "case run (SetNPixelMin 5 arch_4x3) of
     Inl e \<Rightarrow> False
   | Inr s \<Rightarrow> m_Objects s = []"
  by code_simp

lemma foreground_arch_4x3: "foreground arch_4x3 = [(1, 0), (2, 0), (0, 1), (3, 1), (2, 2)]"
  by code_simp

lemma foreground_arch_4x3_min5:
  "foreground (SetNPixelMin 5 arch_4x3) = [(1, 0), (2, 0), (0, 1), (3, 1), (2, 2)]"
  by code_simp

lemma foreground_arch_4x4: "foreground arch_4x4 = [(1, 0), (2, 0), (0, 1), (3, 1), (2, 2), (3, 3)]"
  by code_simp

lemma arch_linked:
  defines "F \<equiv> set [(1, 0), (2, 0), (0, 1), (3, 1), (2, 2)]"
  shows "linked8 F (1, 0) (1, 0)" "linked8 F (1, 0) (2, 0)" "linked8 F (1, 0) (0, 1)"
    "linked8 F (1, 0) (3, 1)" "linked8 F (1, 0) (2, 2)"
proof -
  show a: "linked8 F (1, 0) (1, 0)"
    by (rule linked8.here) (simp add: F_def)
  show b: "linked8 F (1, 0) (2, 0)"
    by (rule linked8.step [OF a]) (simp_all add: F_def adjacent8_def)
  show "linked8 F (1, 0) (0, 1)"
    by (rule linked8.step [OF a]) (simp_all add: F_def adjacent8_def)
  show c: "linked8 F (1, 0) (3, 1)"
    by (rule linked8.step [OF b]) (simp_all add: F_def adjacent8_def)
  show "linked8 F (1, 0) (2, 2)"
    by (rule linked8.step [OF c]) (simp_all add: F_def adjacent8_def)
qed

lemma isolated_corner:
  assumes "linked8 (set [(0, 1), (1, 0), (2, 0), (3, 1), (3, 3)]) p q" and "p = (3, 3)"
  shows "q = (3, 3)"
  using assms
  by (induction rule: linked8.induct) (auto simp: adjacent8_def)

text \<open>
  Claim C1.  Every emitted Object is 8-connected and no two emitted Objects share a
  position.  On \<open>arch_4x4\<close> the run emits one Object whose pixel \<open>(3, 3)\<close> is linked to
  none of its other pixels: the pixel \<open>(2, 2)\<close> that joins it to the rest in the image
  has been dropped.
\<close>

theorem run_emits_unconnected_object:
  "\<exists>s. run arch_4x4 = Inr s
     \<and> map positions (m_Objects s) = [[(0, 1), (1, 0), (2, 0), (3, 1), (3, 3)]]
     \<and> \<not> linked8 (set [(0, 1), (1, 0), (2, 0), (3, 1), (3, 3)]) (3, 3) (3, 1)
     \<and> (2, 2) \<in> set (foreground arch_4x4)"
proof -
  have "\<not> linked8 (set [(0, 1), (1, 0), (2, 0), (3, 1), (3, 3)]) (3, 3) (3, 1)"
    using isolated_corner [of "(3, 3)" "(3, 1)"] by auto
  with run_arch_4x4 show ?thesis
    by (cases "run arch_4x4") (simp_all add: foreground_arch_4x4)
qed

text \<open>
  Claim C3.  A component that touches the border of the grid is emitted by the end of
  the run, and no pixel of it stays behind in an internal buffer.  The component of
  \<open>arch_4x3\<close> touches all four borders; its pixel \<open>(2, 2)\<close> on the last row is linked to
  the pixels of row 0, yet after the run it is in no emitted Object and still sits
  in \<open>m_INFO[2]\<close>, which the closing \<open>StoreClearance\<close> never looks at.
\<close>

theorem run_leaves_border_pixel_behind:
  "\<exists>s. run arch_4x3 = Inr s
     \<and> foreground arch_4x3 = [(1, 0), (2, 0), (0, 1), (3, 1), (2, 2)]
     \<and> linked8 (set (foreground arch_4x3)) (1, 0) (2, 2)
     \<and> map positions (m_Objects s) = [[(0, 1), (1, 0), (2, 0), (3, 1)]]
     \<and> pixel_positions (m_INFO s ! 2) = [(2, 2)]"
proof -
  have "linked8 (set (foreground arch_4x3)) (1, 0) (2, 2)"
    using arch_linked(5) by (simp add: foreground_arch_4x3)
  with run_arch_4x3 show ?thesis
    by (cases "run arch_4x3") (simp_all add: foreground_arch_4x3)
qed

text \<open>
  Claim C4.  A component whose true pixel count equals the configured minimum appears
  in the result.  The component of \<open>arch_4x3\<close> has five pixels, all linked to \<open>(1, 0)\<close>;
  with the minimum set to 5 the run emits nothing, because the fragment that reaches
  \<open>WriteObject\<close> has lost the pixel \<open>(2, 2)\<close> and counts four.
\<close>

theorem run_drops_component_of_minimum_size:
  "\<exists>s. run (SetNPixelMin 5 arch_4x3) = Inr s
     \<and> length (foreground (SetNPixelMin 5 arch_4x3)) = 5
     \<and> list_all (linked8 (set (foreground (SetNPixelMin 5 arch_4x3))) (1, 0))
          (foreground (SetNPixelMin 5 arch_4x3))
     \<and> m_Objects s = []"
proof -
  have "list_all (linked8 (set (foreground (SetNPixelMin 5 arch_4x3))) (1, 0))
          (foreground (SetNPixelMin 5 arch_4x3))"
    using arch_linked by (simp add: foreground_arch_4x3_min5)
  with run_arch_4x3_min5 show ?thesis
    by (cases "run (SetNPixelMin 5 arch_4x3)") (simp_all add: foreground_arch_4x3_min5)
qed

text \<open>
  Claim C5.  For every grid of width and height at least 1 all accesses to the
  width-sized arrays stay in bounds.  On the 1 x 1 grid whose only pixel is foreground the
  first \<open>StartSegment\<close> pushes a new object: \<open>co\<close> becomes 1 and \<open>m_START[1]\<close> is
  written in a vector of size 1.
\<close>

theorem run_width_one_out_of_range:
  "run single_1x1 = Inl Out_Of_Range
   \<and> (\<exists>s. init_members single_1x1 = Inr s \<and> length (m_START s) = 1
        \<and> ModOBSTACK PUSH 0 (s\<lparr>co := 0, pstop := 0, m_PS := COMPLETE, m_CS := NONOBJECT\<rparr>)
            = Inl Out_Of_Range
        \<and> (\<exists>s'. ModPSSTACK PUSH (s\<lparr>co := 0, pstop := 0, m_PS := COMPLETE, m_CS := NONOBJECT\<rparr>)
            = Inr s' \<and> co s' + 1 = 1))"
proof -
  have "run single_1x1 = Inl Out_Of_Range"
    by code_simp
  moreover have "case init_members single_1x1 of Inl e \<Rightarrow> False
    | Inr s \<Rightarrow> length (m_START s) = 1
        \<and> ModOBSTACK PUSH 0 (s\<lparr>co := 0, pstop := 0, m_PS := COMPLETE, m_CS := NONOBJECT\<rparr>)
            = Inl Out_Of_Range
        \<and> (case ModPSSTACK PUSH (s\<lparr>co := 0, pstop := 0, m_PS := COMPLETE, m_CS := NONOBJECT\<rparr>) of
             Inl e \<Rightarrow> False | Inr s' \<Rightarrow> co s' + 1 = 1)"
    by code_simp
  ultimately show ?thesis
    by (cases "init_members single_1x1") (auto split: sum.splits)
qed


section \<open>Configurations that are not validated\<close>

lemma WriteObject_Nil: "WriteObject [] s = s"
  by (simp add: WriteObject_def)

lemma clear_step_empty:
  assumes "m_STORE s ! nat i = []" and "0 \<le> i" and "i < int (length (m_STORE s))"
  shows "andThen (vget (m_STORE s) i) (\<lambda>obj.
        andThen (vput (m_STORE s) i []) (\<lambda>store.
          Inr ((WriteObject obj s)\<lparr>m_STORE := store\<rparr>))) = Inr s"
proof -
  have "(m_STORE s)[nat i := []] = m_STORE s"
    using assms(1) by (metis list_update_id)
  with assms show ?thesis
    by (simp add: vget_def vput_def WriteObject_Nil)
qed

lemma clear_columns_empty:
  assumes "\<forall>i\<in>set is. 0 \<le> i \<and> i < int (length (m_STORE s)) \<and> m_STORE s ! nat i = []"
  shows "foldE (\<lambda>i s.
        andThen (vget (m_STORE s) i) (\<lambda>obj.
        andThen (vput (m_STORE s) i []) (\<lambda>store.
          Inr ((WriteObject obj s)\<lparr>m_STORE := store\<rparr>)))) is s = Inr s"
  using assms
proof (induction "is")
  case Nil
  then show ?case by simp
next
  case (Cons i "is")
  from Cons.prems have i: "m_STORE s ! nat i = []" "0 \<le> i" "i < int (length (m_STORE s))"
    by auto
  from Cons show ?case
    by (simp add: clear_step_empty [OF i])
qed

lemma StoreClearance_empty:
  assumes "\<forall>obj\<in>set (m_STORE s). obj = []"
  shows "StoreClearance s = Inr s"
  unfolding StoreClearance_def
  by (rule clear_columns_empty) (use assms in auto)

lemma run_row_zero_width:
  assumes "m_xpix s = 0" and "m_MARKER s = [CHR 0x00]"
  shows "run_row y s = Inr (s\<lparr>m_PS := COMPLETE, m_CS := NONOBJECT\<rparr>)"
  using assms by (simp add: run_row_def run_row_end_def)

lemma foldE_run_row_zero_width:
  assumes "m_xpix s = 0" and "m_MARKER s = [CHR 0x00]"
  shows "\<exists>s'. foldE run_row ys s = Inr s' \<and> m_Objects s' = m_Objects s \<and> m_STORE s' = m_STORE s"
  using assms
proof (induction ys arbitrary: s)
  case Nil
  then show ?case by simp
next
  case (Cons y ys)
  let ?t = "s\<lparr>m_PS := COMPLETE, m_CS := NONOBJECT\<rparr>"
  have "m_xpix ?t = 0" "m_MARKER ?t = [CHR 0x00]"
    using Cons.prems by simp_all
  from Cons.IH [OF this] Cons.prems show ?case
    by (simp add: run_row_zero_width)
qed

lemma init_members_ok:
  assumes "0 \<le> m_xpix s" and "m_xpix s + 1 < 2 ^ 31"
  shows "init_members s = Inr (s\<lparr>m_Objects := [],
                  m_MARKER := replicate (nat (m_xpix s + 1)) (CHR 0x00),
                  m_PSSTACK := replicate (nat (m_xpix s)) COMPLETE,
                  m_START := replicate (nat (m_xpix s)) (- 1),
                  m_END := replicate (nat (m_xpix s)) (- 1),
                  m_INFO := replicate (nat (m_xpix s)) [],
                  m_STORE := replicate (nat (m_xpix s)) []\<rparr>)"
  using assms by (simp add: init_members_def fits_int_def)

lemma run_zero_width:
  assumes "m_xpix s = 0"
  shows "\<exists>s'. run s = Inr s' \<and> m_Objects s' = []"
proof -
  let ?i = "s\<lparr>m_Objects := [], m_MARKER := [CHR 0x00], m_PSSTACK := [], m_START := [],
     m_END := [], m_INFO := [], m_STORE := [], co := 0, pstop := 0\<rparr>"
  have init: "init_members s = Inr (s\<lparr>m_Objects := [], m_MARKER := [CHR 0x00], m_PSSTACK := [],
      m_START := [], m_END := [], m_INFO := [], m_STORE := []\<rparr>)"
    using assms by (simp add: init_members_ok)
  obtain s' where s': "foldE run_row (map int [0..<nat (m_ypix s)]) ?i = Inr s'"
      "m_Objects s' = []" "m_STORE s' = []"
    using foldE_run_row_zero_width [of ?i "map int [0..<nat (m_ypix s)]"] assms by auto
  have "StoreClearance s' = Inr s'"
    by (rule StoreClearance_empty) (simp add: s')
  with init s' show ?thesis
    by (simp add: run_def run_rows_def)
qed

lemma run_no_rows:
  assumes "0 \<le> m_xpix s" and "m_xpix s + 1 < 2 ^ 31" and "m_ypix s \<le> 0"
  shows "\<exists>s'. run s = Inr s' \<and> m_Objects s' = []"
proof -
  let ?i = "s\<lparr>m_Objects := [],
                  m_MARKER := replicate (nat (m_xpix s + 1)) (CHR 0x00),
                  m_PSSTACK := replicate (nat (m_xpix s)) COMPLETE,
                  m_START := replicate (nat (m_xpix s)) (- 1),
                  m_END := replicate (nat (m_xpix s)) (- 1),
                  m_INFO := replicate (nat (m_xpix s)) [],
                  m_STORE := replicate (nat (m_xpix s)) [], co := 0, pstop := 0\<rparr>"
  have "StoreClearance ?i = Inr ?i"
    by (rule StoreClearance_empty) simp
  with assms show ?thesis
    by (simp add: run_def run_rows_def init_members_ok)
qed

lemma run_negative_width:
  assumes "m_xpix s < 0" and "- (2 ^ 31) \<le> m_xpix s"
  shows "run s = Inl Length_Error"
  using assms by (simp add: run_def init_members_def fits_int_def)

lemma run_overflowing_width:
  assumes "m_xpix s = 2 ^ 31 - 1"
  shows "run s = Inl Signed_Overflow"
  using assms by (simp add: run_def init_members_def fits_int_def)

lemma run_null_image:
  assumes "m_image s = None" and "0 < m_xpix s" and "m_xpix s + 1 < 2 ^ 31" and "0 < m_ypix s"
  shows "run s = Inl Null_Dereference"
proof -
  have rows: "map int [0..<nat (m_ypix s)] = 0 # map int [Suc 0..<nat (m_ypix s)]"
    using assms(4) by (simp add: upt_conv_Cons)
  have cols: "map int [0..<nat (m_xpix s)] = 0 # map int [Suc 0..<nat (m_xpix s)]"
    using assms(2) by (simp add: upt_conv_Cons)
  have pix: "run_pixel 0 0 t = Inl Null_Dereference" if "m_image t = None" for t
    using that by (simp add: run_pixel_def GetPixValue_def fits_int_def)
  have row: "run_row 0 t = Inl Null_Dereference" if "m_image t = None" "m_xpix t = m_xpix s" for t
    using that cols by (simp add: run_row_def pix)
  show ?thesis
    using assms by (simp add: run_def run_rows_def init_members_ok rows row)
qed

text \<open>
  Claim C7, as stated, has \<open>run()\<close> raise a fatal configuration error for a non-positive
  width or height or a null accessor.  The default-constructed labeler has all three
  (width 0, height 0, null image), and its run returns normally with no Object.
\<close>

theorem run_default_raises_nothing:
  "m_xpix lutzOnePass_default = 0 \<and> m_ypix lutzOnePass_default = 0
     \<and> m_image lutzOnePass_default = None
     \<and> (\<exists>s. run lutzOnePass_default = Inr s \<and> m_Objects s = [])"
  using run_zero_width [of lutzOnePass_default]
  by (simp add: lutzOnePass_default_def lutzOnePass_ctor_def)

text \<open>
  Claim C7, amended.  \<open>run()\<close> validates nothing; the width is a 32-bit \<open>int\<close>, and the
  four cases below cover all its values.  With width 0, or with a non-positive height and
  a width from 0 to \<open>2^31 - 2\<close>, it returns normally with an empty result, whatever the
  accessor is.  With a negative width the buffer allocation of \<open>init_members\<close> throws
  \<open>std::length_error\<close>.  With the width \<open>2^31 - 1\<close> the size \<open>m_xpix + 1\<close> of the marker
  row overflows \<open>int\<close>, which is undefined behaviour and no configuration error.  With a
  null accessor, a width from 1 to \<open>2^31 - 2\<close> and a positive height nothing is raised:
  the read of the first pixel dereferences the null pointer.  Every allocation of a
  non-negative size is taken to succeed.
\<close>

theorem run_validates_nothing:
  "(m_xpix s = 0 \<or> (0 \<le> m_xpix s \<and> m_xpix s \<le> 2 ^ 31 - 2 \<and> m_ypix s \<le> 0)
      \<longrightarrow> (\<exists>s'. run s = Inr s' \<and> m_Objects s' = []))
   \<and> (- (2 ^ 31) \<le> m_xpix s \<and> m_xpix s < 0 \<longrightarrow> run s = Inl Length_Error \<and> thrown Length_Error)
   \<and> (m_xpix s = 2 ^ 31 - 1 \<longrightarrow> run s = Inl Signed_Overflow \<and> \<not> thrown Signed_Overflow)
   \<and> (m_image s = None \<and> 0 < m_xpix s \<and> m_xpix s \<le> 2 ^ 31 - 2 \<and> 0 < m_ypix s
      \<longrightarrow> run s = Inl Null_Dereference \<and> \<not> thrown Null_Dereference)"
  using run_zero_width [of s] run_no_rows [of s] run_negative_width [of s] run_null_image [of s]
    run_overflowing_width [of s]
  by (auto simp: thrown_def)

text \<open>
  The theorem on five configurations: width 0 with height 5; width 3 with height 0 and a
  null accessor; width -1; width \<open>2^31 - 1\<close> with height 0; and a null accessor with
  width 2 and height 2.
\<close>

theorem run_validates_nothing_witness:
  "(\<exists>s'. run (lutzOnePass_ctor (Some []) 0 5) = Inr s' \<and> m_Objects s' = [])
   \<and> (\<exists>s'. run (lutzOnePass_ctor None 3 0) = Inr s' \<and> m_Objects s' = [])
   \<and> run (lutzOnePass_ctor None (- 1) 4) = Inl Length_Error
   \<and> run (lutzOnePass_ctor None 2147483647 0) = Inl Signed_Overflow
   \<and> run (lutzOnePass_ctor None 2 2) = Inl Null_Dereference"
  using run_validates_nothing [of "lutzOnePass_ctor (Some []) 0 5"]
    run_validates_nothing [of "lutzOnePass_ctor None 3 0"]
    run_validates_nothing [of "lutzOnePass_ctor None (- 1) 4"]
    run_validates_nothing [of "lutzOnePass_ctor None 2147483647 0"]
    run_validates_nothing [of "lutzOnePass_ctor None 2 2"]
  by (simp add: lutzOnePass_ctor_def)

section \<open>The object query\<close>

lemma run_single_2x1:
  "case run single_2x1 of
     Inl e \<Rightarrow> False
   | Inr s \<Rightarrow> map positions (m_Objects s) = [[(0, 0)]]"
  by code_simp

text \<open>
  Claim C8, as stated, has \<open>GetObject\<close> report an index error for an index outside
  \<open>[0, NumObjects())\<close>.  \<open>GetObject\<close> is \<open>return m_Objects[obj_id]\<close>: on a labeler that
  holds no Object, index 0 is an unchecked read past the end of the vector, and nothing
  is thrown.
\<close>

theorem GetObject_reports_nothing:
  "NumObjects lutzOnePass_default = 0
     \<and> GetObject lutzOnePass_default 0 = Inl Out_Of_Range \<and> \<not> thrown Out_Of_Range"
  by (simp add: NumObjects_def GetObject_def vget_def lutzOnePass_default_def
      lutzOnePass_ctor_def thrown_def)

text \<open>
  Claim C8, amended.  For every index within \<open>[0, NumObjects())\<close>, \<open>GetObject\<close> returns
  the Object stored at that index.  It makes no bounds check: for every other index the
  access is an out-of-range read of the vector (undefined behaviour), not a reported
  error.
\<close>

theorem GetObject_unchecked:
  "(0 \<le> i \<and> i < NumObjects s \<longrightarrow> GetObject s i = Inr (m_Objects s ! nat i))
   \<and> (\<not> (0 \<le> i \<and> i < NumObjects s) \<longrightarrow> GetObject s i = Inl Out_Of_Range \<and> \<not> thrown Out_Of_Range)"
  by (simp add: GetObject_def NumObjects_def vget_def thrown_def)

theorem GetObject_unchecked_witness:
  "\<exists>s. run single_2x1 = Inr s \<and> NumObjects s = 1
     \<and> (\<exists>obj. GetObject s 0 = Inr obj \<and> positions obj = [(0, 0)])
     \<and> GetObject s 1 = Inl Out_Of_Range \<and> GetObject s (- 1) = Inl Out_Of_Range"
proof (cases "run single_2x1")
  case (Inl e)
  with run_single_2x1 show ?thesis by simp
next
  case (Inr s)
  with run_single_2x1 have objs: "map positions (m_Objects s) = [[(0, 0)]]" by simp
  then have n: "NumObjects s = 1"
    by (auto simp: NumObjects_def)
  from objs have p: "positions (m_Objects s ! nat 0) = [(0, 0)]"
    by auto
  from GetObject_unchecked [of 0 s] GetObject_unchecked [of 1 s] GetObject_unchecked [of "- 1" s]
    n p Inr show ?thesis by simp
qed


section \<open>The steps of the row scan\<close>

lemmas scan_defs = StartSegment_def EndSegment_def ModOBSTACK_def ModPSSTACK_def
  ProcessNewMarker_def info_push_back_def vget_def vput_def Let_def

lemma step_bg_skip:
  assumes "m_MARKER s ! x = CHR 0x00" and "m_CS s = NONOBJECT"
  shows "step_bg (int x) s = Inr s"
proof -
  have "(m_MARKER s)[x := CHR 0x00] = m_MARKER s"
    using assms(1) by (metis list_update_id)
  with assms show ?thesis
    by (simp add: step_bg_def)
qed

lemma step_fg_open_new:
  assumes "ready w h img thr s" and "2 \<le> w" and "c < w" and "quiet s"
    and "m_MARKER s ! c = CHR 0x00"
  shows "\<exists>s'. step_fg p (int c) s = Inr s' \<and> ready w h img thr s' \<and> opened (int c) [p] s'
     \<and> m_MARKER s' = (m_MARKER s)[c := CHR ''S''] \<and> m_STORE s' = m_STORE s
     \<and> m_Objects s' = m_Objects s"
  using assms
  by (simp add: step_fg_def scan_defs ready_def quiet_def opened_def)

lemma step_fg_open_below:
  assumes "ready w h img thr s" and "2 \<le> w" and "c < w" and "quiet s"
    and "m_MARKER s ! c = CHR ''S''"
  shows "\<exists>s'. step_fg p (int c) s = Inr s' \<and> ready w h img thr s'
     \<and> joined (int c) (m_STORE s ! c @ [p]) s'
     \<and> m_MARKER s' = (m_MARKER s)[c := CHR ''S''] \<and> m_STORE s' = (m_STORE s)[c := []]
     \<and> m_Objects s' = m_Objects s"
  using assms
  by (simp add: step_fg_def scan_defs ready_def quiet_def joined_def foldE_info_push_back)


lemma step_fg_pass_end:
  assumes "ready w h img thr s" and "2 \<le> w" and "x < w" and "joined k I s"
    and "m_MARKER s ! x = CHR ''F''"
  shows "\<exists>s'. step_fg p (int x) s = Inr s' \<and> ready w h img thr s' \<and> opened k (I @ [p]) s'
     \<and> m_MARKER s' = (m_MARKER s)[x := CHR 0x00] \<and> m_STORE s' = m_STORE s
     \<and> m_Objects s' = m_Objects s"
  using assms
  by (simp add: step_fg_def scan_defs ready_def joined_def opened_def)

lemma step_fg_push:
  assumes "ready w h img thr s" and "2 \<le> w" and "x < w" and "opened k I s"
    and "m_MARKER s ! x = CHR 0x00"
  shows "\<exists>s'. step_fg p (int x) s = Inr s' \<and> ready w h img thr s' \<and> opened k (I @ [p]) s'
     \<and> m_MARKER s' = (m_MARKER s)[x := CHR 0x00] \<and> m_STORE s' = m_STORE s
     \<and> m_Objects s' = m_Objects s"
  using assms
  by (simp add: step_fg_def scan_defs ready_def opened_def)

lemma step_fg_push_below:
  assumes "ready w h img thr s" and "2 \<le> w" and "x < w" and "joined k I s"
    and "m_MARKER s ! x = CHR 0x00"
  shows "\<exists>s'. step_fg p (int x) s = Inr s' \<and> ready w h img thr s' \<and> joined k (I @ [p]) s'
     \<and> m_MARKER s' = (m_MARKER s)[x := CHR 0x00] \<and> m_STORE s' = m_STORE s
     \<and> m_Objects s' = m_Objects s"
  using assms
  by (simp add: step_fg_def scan_defs ready_def joined_def)

lemma step_fg_meet_start:
  assumes "ready w h img thr s" and "2 \<le> w" and "x < w" and "opened k I s"
    and "m_MARKER s ! x = CHR ''S''"
  shows "\<exists>s'. step_fg p (int x) s = Inr s' \<and> ready w h img thr s'
     \<and> joined k (I @ m_STORE s ! x @ [p]) s'
     \<and> m_MARKER s' = (m_MARKER s)[x := CHR 0x00] \<and> m_STORE s' = (m_STORE s)[x := []]
     \<and> m_Objects s' = m_Objects s \<and> m_START s' = m_START s"
  using assms
  by (simp add: step_fg_def scan_defs ready_def opened_def joined_def foldE_info_push_back)

lemma step_bg_close:
  assumes "ready w h img thr s" and "2 \<le> w" and "x \<le> w" and "opened (int k) I s" and "k < w"
    and "m_MARKER s ! x = CHR 0x00"
  shows "\<exists>s'. step_bg (int x) s = Inr s' \<and> ready w h img thr s' \<and> quiet s'
     \<and> m_MARKER s' = (m_MARKER s)[x := CHR ''F'']
     \<and> m_STORE s' = (m_STORE s)[k := m_STORE s ! k @ I]
     \<and> m_Objects s' = m_Objects s"
proof -
  from assms(1,2) have "m_PSSTACK s \<noteq> []"
    by (auto simp: ready_def)
  with assms show ?thesis
    by (simp add: step_bg_def scan_defs ready_def opened_def quiet_def foldE_store_push_back)
qed

lemma step_bg_close_end:
  assumes "ready w h img thr s" and "2 \<le> w" and "x \<le> w" and "joined (int k) I s" and "k < w"
    and "m_MARKER s ! x = CHR ''F''"
  shows "\<exists>s'. step_bg (int x) s = Inr s' \<and> ready w h img thr s' \<and> quiet s'
     \<and> m_MARKER s' = (m_MARKER s)[x := CHR ''F'']
     \<and> m_STORE s' = (m_STORE s)[k := m_STORE s ! k @ I]
     \<and> m_Objects s' = m_Objects s"
proof -
  from assms(1,2) have "m_PSSTACK s \<noteq> []"
    by (auto simp: ready_def)
  with assms show ?thesis
    by (simp add: step_bg_def scan_defs ready_def joined_def quiet_def foldE_store_push_back)
qed

lemma step_bg_take_over:
  assumes "ready w h img thr s" and "2 \<le> w" and "x < w" and "quiet s"
    and "m_MARKER s ! x = CHR ''S''"
  shows "\<exists>s'. step_bg (int x) s = Inr s' \<and> ready w h img thr s' \<and> finishing (m_STORE s ! x) s'
     \<and> m_MARKER s' = (m_MARKER s)[x := CHR 0x00] \<and> m_STORE s' = (m_STORE s)[x := []]
     \<and> m_Objects s' = m_Objects s"
  using assms
  by (simp add: step_bg_def scan_defs ready_def quiet_def finishing_def)

lemma step_bg_flush:
  assumes "ready w h img thr s" and "2 \<le> w" and "x \<le> w" and "finishing I s"
    and "m_MARKER s ! x = CHR ''F''" and "I \<noteq> []"
  shows "\<exists>s'. step_bg (int x) s = Inr s' \<and> ready w h img thr s' \<and> quiet s'
     \<and> m_MARKER s' = (m_MARKER s)[x := CHR 0x00] \<and> m_STORE s' = m_STORE s
     \<and> m_Objects s' = m_Objects s @ [lutzObject_append_list lutzObject_ctor I]"
  using assms
  by (simp add: step_bg_def scan_defs ready_def finishing_def quiet_def WriteObject_def)

section \<open>Runs of columns on a U-shaped grid\<close>

lemma column_u:
  assumes "ready (uw g) (uh g) img thr s" and "shows_u g img thr" and "y < uh g" and "x \<le> uw g"
  shows "column (uw g) (int y) (int x) s =
     (if x < uw g \<and> u_pixel g x y then step_fg (pixel_at (uw g) img x y) (int x) s
      else step_bg (int x) s)"
proof (cases "x < uw g")
  case True
  with assms(2,3) have "(img ! (uw g * y + x) > thr) = u_pixel g x y"
    by (simp add: shows_u_def)
  with True assms show ?thesis
    by (simp add: column_def run_pixel_bg run_pixel_fg)
next
  case False
  with assms have "x = uw g" "length (m_MARKER s) = Suc (uw g)"
    by (simp_all add: ready_def)
  then show ?thesis
    by (simp add: column_def run_row_end_bg)
qed

lemma foldE_chain:
  assumes "foldE f xs s = Inr t" and "foldE f ys t = Inr u"
  shows "foldE f (xs @ ys) s = Inr u"
  using assms by (simp add: foldE_append)

lemma skip_columns:
  assumes "ready (uw g) (uh g) img thr s" and "shows_u g img thr" and "y < uh g"
    and "j \<le> Suc (uw g)" and "m_CS s = NONOBJECT"
    and "\<And>x. i \<le> x \<Longrightarrow> x < j \<Longrightarrow>
       m_MARKER s ! x = CHR 0x00 \<and> \<not> (x < uw g \<and> u_pixel g x y)"
  shows "foldE (column (uw g) (int y)) (map int [i..<j]) s = Inr s"
  using assms(4,6)
proof (induction j)
  case 0
  then show ?case by simp
next
  case (Suc j)
  show ?case
  proof (cases "i \<le> j")
    case False
    then show ?thesis by simp
  next
    case True
    have 1: "foldE (column (uw g) (int y)) (map int [i..<j]) s = Inr s"
      using Suc by simp
    have "column (uw g) (int y) (int j) s = step_bg (int j) s"
      using column_u [OF assms(1-3), of j] Suc.prems True by simp
    also have "\<dots> = Inr s"
      using Suc.prems(2) [of j] True assms(5) by (simp add: step_bg_skip)
    finally show ?thesis
      using True 1 by (simp add: foldE_snoc)
  qed
qed

text \<open>
  A run of foreground columns with nothing above them only appends pixels to the open
  fragment, whether the segment began under a marker or not.
\<close>

lemma push_columns:
  assumes "ready (uw g) (uh g) img thr s" and "shows_u g img thr" and "y < uh g"
    and "2 \<le> uw g" and "j \<le> uw g" and "P = opened \<or> P = joined" and "P k I s"
    and "\<And>x. i \<le> x \<Longrightarrow> x < j \<Longrightarrow> m_MARKER s ! x = CHR 0x00 \<and> u_pixel g x y"
  shows "\<exists>s'. foldE (column (uw g) (int y)) (map int [i..<j]) s = Inr s'
     \<and> ready (uw g) (uh g) img thr s'
     \<and> P k (I @ map (\<lambda>x. pixel_at (uw g) img x y) [i..<j]) s'
     \<and> m_MARKER s' = m_MARKER s \<and> m_STORE s' = m_STORE s \<and> m_Objects s' = m_Objects s"
  using assms(5,8)
proof (induction j)
  case 0
  then show ?case using assms(1,7) by simp
next
  case (Suc j)
  show ?case
  proof (cases "i \<le> j")
    case False
    then show ?thesis using assms(1,7) by simp
  next
    case True
    let ?p = "pixel_at (uw g) img j y"
    from Suc obtain s1 where s1: "foldE (column (uw g) (int y)) (map int [i..<j]) s = Inr s1"
      "ready (uw g) (uh g) img thr s1"
      "P k (I @ map (\<lambda>x. pixel_at (uw g) img x y) [i..<j]) s1"
      "m_MARKER s1 = m_MARKER s" "m_STORE s1 = m_STORE s" "m_Objects s1 = m_Objects s"
      by auto
    have j: "j < uw g" "m_MARKER s ! j = CHR 0x00" "u_pixel g j y"
      using Suc.prems True by auto
    have col: "column (uw g) (int y) (int j) s1 = step_fg ?p (int j) s1"
      using column_u [OF s1(2) assms(2,3), of j] j by simp
    have m: "m_MARKER s1 ! j = CHR 0x00" using j s1(4) by simp
    have "\<exists>s2. step_fg ?p (int j) s1 = Inr s2 \<and> ready (uw g) (uh g) img thr s2
        \<and> P k ((I @ map (\<lambda>x. pixel_at (uw g) img x y) [i..<j]) @ [?p]) s2
        \<and> m_MARKER s2 = (m_MARKER s1)[j := CHR 0x00] \<and> m_STORE s2 = m_STORE s1
        \<and> m_Objects s2 = m_Objects s1"
      using assms(6)
    proof
      assume P: "P = opened"
      from s1(3) have "opened k (I @ map (\<lambda>x. pixel_at (uw g) img x y) [i..<j]) s1"
        unfolding P .
      from step_fg_push [OF s1(2) assms(4) j(1) this m, of ?p] show ?thesis
        unfolding P .
    next
      assume P: "P = joined"
      from s1(3) have "joined k (I @ map (\<lambda>x. pixel_at (uw g) img x y) [i..<j]) s1"
        unfolding P .
      from step_fg_push_below [OF s1(2) assms(4) j(1) this m, of ?p] show ?thesis
        unfolding P .
    qed
    then obtain s2 where s2: "step_fg ?p (int j) s1 = Inr s2"
        "ready (uw g) (uh g) img thr s2"
        "P k ((I @ map (\<lambda>x. pixel_at (uw g) img x y) [i..<j]) @ [?p]) s2"
        "m_MARKER s2 = (m_MARKER s1)[j := CHR 0x00]" "m_STORE s2 = m_STORE s1"
        "m_Objects s2 = m_Objects s1"
      by blast
    have "(m_MARKER s)[j := CHR 0x00] = m_MARKER s"
      using j(2) by (metis list_update_id)
    with s1 s2 col True show ?thesis
      by (simp add: foldE_snoc)
  qed
qed

text \<open>
  A bar in a row above the horizontal row: the columns \<open>c\<close> to \<open>e - 1\<close> are foreground,
  column \<open>e\<close> is background (or the trailing marker), and the row above either had
  nothing here or had the same bar.
\<close>

lemma bar_columns:
  assumes "ready (uw g) (uh g) img thr s" and "shows_u g img thr" and "y < uh g"
    and "2 \<le> uw g" and "c < e" and "e \<le> uw g" and "quiet s"
    and fg: "\<And>x. c \<le> x \<Longrightarrow> x < e \<Longrightarrow> u_pixel g x y"
    and bg: "\<not> (e < uw g \<and> u_pixel g e y)"
    and inner: "\<And>x. c < x \<Longrightarrow> x < e \<Longrightarrow> m_MARKER s ! x = CHR 0x00"
    and ends: "(m_MARKER s ! c = CHR 0x00 \<and> m_MARKER s ! e = CHR 0x00)
       \<or> (m_MARKER s ! c = CHR ''S'' \<and> m_MARKER s ! e = CHR ''F'')"
  shows "\<exists>s'. foldE (column (uw g) (int y)) (map int [c..<Suc e]) s = Inr s'
     \<and> ready (uw g) (uh g) img thr s' \<and> quiet s'
     \<and> m_MARKER s' = (m_MARKER s)[c := CHR ''S'', e := CHR ''F'']
     \<and> m_STORE s' = (m_STORE s)[c := m_STORE s ! c @ map (\<lambda>x. pixel_at (uw g) img x y) [c..<e]]
     \<and> m_Objects s' = m_Objects s"
proof -
  let ?p = "\<lambda>x. pixel_at (uw g) img x y"
  let ?col = "column (uw g) (int y)"
  have cw: "c < uw g" using assms(5,6) by simp
  have len: "length (m_MARKER s) = Suc (uw g)" "length (m_STORE s) = uw g"
    using assms(1) by (simp_all add: ready_def)
  have split: "map int [c..<Suc e] = map int [c] @ map int [Suc c..<e] @ map int [e]"
    using assms(5) by (simp add: upt_conv_Cons)
  have row: "[c..<e] = c # [Suc c..<e]"
    using assms(5) by (simp add: upt_conv_Cons)
  have col1: "?col (int c) s = step_fg (?p c) (int c) s"
    using column_u [OF assms(1-3), of c] cw fg [of c] assms(5) by simp
  from ends show ?thesis
  proof
    assume m: "m_MARKER s ! c = CHR 0x00 \<and> m_MARKER s ! e = CHR 0x00"
    obtain s1 where s1: "step_fg (?p c) (int c) s = Inr s1" "ready (uw g) (uh g) img thr s1"
        "opened (int c) [?p c] s1" "m_MARKER s1 = (m_MARKER s)[c := CHR ''S'']"
        "m_STORE s1 = m_STORE s" "m_Objects s1 = m_Objects s"
      using step_fg_open_new [OF assms(1,4) cw assms(7), of "?p c"] m by blast
    have A: "foldE ?col (map int [c]) s = Inr s1"
      using col1 s1(1) by simp
    have "\<exists>s'. foldE ?col (map int [Suc c..<e]) s1 = Inr s'
       \<and> ready (uw g) (uh g) img thr s'
       \<and> opened (int c) ([?p c] @ map ?p [Suc c..<e]) s'
       \<and> m_MARKER s' = m_MARKER s1 \<and> m_STORE s' = m_STORE s1 \<and> m_Objects s' = m_Objects s1"
    proof (rule push_columns [where P = opened, OF s1(2) assms(2,3,4,6) _ s1(3)])
      show "opened = opened \<or> opened = joined" by simp
      fix x assume "Suc c \<le> x" "x < e"
      then show "m_MARKER s1 ! x = CHR 0x00 \<and> u_pixel g x y"
        using inner [of x] fg [of x] by (simp add: s1(4))
    qed
    then obtain s2 where s2: "foldE ?col (map int [Suc c..<e]) s1 = Inr s2"
        "ready (uw g) (uh g) img thr s2" "opened (int c) (map ?p [c..<e]) s2"
        "m_MARKER s2 = m_MARKER s1" "m_STORE s2 = m_STORE s1" "m_Objects s2 = m_Objects s1"
      by (auto simp: row)
    have col2: "?col (int e) s2 = step_bg (int e) s2"
      using column_u [OF s2(2) assms(2,3,6)] bg by simp
    have "m_MARKER s2 ! e = CHR 0x00"
      using m assms(5) by (simp add: s2(4) s1(4))
    from step_bg_close [OF s2(2) assms(4,6) s2(3) cw this]
    obtain s3 where s3: "step_bg (int e) s2 = Inr s3" "ready (uw g) (uh g) img thr s3"
        "quiet s3" "m_MARKER s3 = (m_MARKER s2)[e := CHR ''F'']"
        "m_STORE s3 = (m_STORE s2)[c := m_STORE s2 ! c @ map ?p [c..<e]]"
        "m_Objects s3 = m_Objects s2"
      by blast
    have C: "foldE ?col (map int [e]) s2 = Inr s3"
      using col2 s3(1) by simp
    have "foldE ?col (map int [c..<Suc e]) s = Inr s3"
      unfolding split by (intro foldE_chain [OF A] foldE_chain [OF s2(1)] C)
    then show ?thesis
      using s1 s2 s3 by simp
  next
    assume m: "m_MARKER s ! c = CHR ''S'' \<and> m_MARKER s ! e = CHR ''F''"
    obtain s1 where s1: "step_fg (?p c) (int c) s = Inr s1" "ready (uw g) (uh g) img thr s1"
        "joined (int c) (m_STORE s ! c @ [?p c]) s1" "m_MARKER s1 = (m_MARKER s)[c := CHR ''S'']"
        "m_STORE s1 = (m_STORE s)[c := []]" "m_Objects s1 = m_Objects s"
      using step_fg_open_below [OF assms(1,4) cw assms(7), of "?p c"] m by blast
    have A: "foldE ?col (map int [c]) s = Inr s1"
      using col1 s1(1) by simp
    have "\<exists>s'. foldE ?col (map int [Suc c..<e]) s1 = Inr s'
       \<and> ready (uw g) (uh g) img thr s'
       \<and> joined (int c) ((m_STORE s ! c @ [?p c]) @ map ?p [Suc c..<e]) s'
       \<and> m_MARKER s' = m_MARKER s1 \<and> m_STORE s' = m_STORE s1 \<and> m_Objects s' = m_Objects s1"
    proof (rule push_columns [where P = joined, OF s1(2) assms(2,3,4,6) _ s1(3)])
      show "joined = opened \<or> joined = joined" by simp
      fix x assume "Suc c \<le> x" "x < e"
      then show "m_MARKER s1 ! x = CHR 0x00 \<and> u_pixel g x y"
        using inner [of x] fg [of x] by (simp add: s1(4))
    qed
    then obtain s2 where s2: "foldE ?col (map int [Suc c..<e]) s1 = Inr s2"
        "ready (uw g) (uh g) img thr s2"
        "joined (int c) (m_STORE s ! c @ map ?p [c..<e]) s2"
        "m_MARKER s2 = m_MARKER s1" "m_STORE s2 = m_STORE s1" "m_Objects s2 = m_Objects s1"
      by (auto simp: row)
    have col2: "?col (int e) s2 = step_bg (int e) s2"
      using column_u [OF s2(2) assms(2,3,6)] bg by simp
    have "m_MARKER s2 ! e = CHR ''F''"
      using m assms(5) by (simp add: s2(4) s1(4))
    from step_bg_close_end [OF s2(2) assms(4,6) s2(3) cw this]
    obtain s3 where s3: "step_bg (int e) s2 = Inr s3" "ready (uw g) (uh g) img thr s3"
        "quiet s3" "m_MARKER s3 = (m_MARKER s2)[e := CHR ''F'']"
        "m_STORE s3 = (m_STORE s2)[c := m_STORE s2 ! c @ (m_STORE s ! c @ map ?p [c..<e])]"
        "m_Objects s3 = m_Objects s2"
      by blast
    have C: "foldE ?col (map int [e]) s2 = Inr s3"
      using col2 s3(1) by simp
    have "foldE ?col (map int [c..<Suc e]) s = Inr s3"
      unfolding split by (intro foldE_chain [OF A] foldE_chain [OF s2(1)] C)
    then show ?thesis
      using s1 s2 s3 len cw by simp
  qed
qed

lemma bar_or_skip:
  assumes "ready (uw g) (uh g) img thr s" and "shows_u g img thr" and "y < uh g"
    and "2 \<le> uw g" and "c < e" and "e \<le> uw g" and "quiet s"
    and act: "\<And>x. c \<le> x \<Longrightarrow> x < e \<Longrightarrow> u_pixel g x y = act"
    and bg: "\<not> (e < uw g \<and> u_pixel g e y)"
    and inner: "\<And>x. c < x \<Longrightarrow> x < e \<Longrightarrow> m_MARKER s ! x = CHR 0x00"
    and "m_MARKER s ! c = (if prev then CHR ''S'' else CHR 0x00)"
    and "m_MARKER s ! e = (if prev then CHR ''F'' else CHR 0x00)"
    and "prev \<longrightarrow> act"
  shows "\<exists>s'. foldE (column (uw g) (int y)) (map int [c..<Suc e]) s = Inr s'
     \<and> ready (uw g) (uh g) img thr s' \<and> quiet s'
     \<and> m_MARKER s' =
         (if act then (m_MARKER s)[c := CHR ''S'', e := CHR ''F''] else m_MARKER s)
     \<and> m_STORE s' =
         (if act
          then (m_STORE s)[c := m_STORE s ! c @ map (\<lambda>x. pixel_at (uw g) img x y) [c..<e]]
          else m_STORE s)
     \<and> m_Objects s' = m_Objects s"
proof (cases act)
  case True
  have "(m_MARKER s ! c = CHR 0x00 \<and> m_MARKER s ! e = CHR 0x00)
       \<or> (m_MARKER s ! c = CHR ''S'' \<and> m_MARKER s ! e = CHR ''F'')"
    using assms(11,12) by (cases prev) simp_all
  from bar_columns [OF assms(1-7) _ bg inner this] act True show ?thesis
    by simp
next
  case False
  with assms(13) have np: "\<not> prev" by blast
  have "foldE (column (uw g) (int y)) (map int [c..<Suc e]) s = Inr s"
  proof (rule skip_columns [OF assms(1-3)])
    show "Suc e \<le> Suc (uw g)" using assms(6) by simp
    show "m_CS s = NONOBJECT" using assms(7) by (simp add: quiet_def)
    fix x assume x: "c \<le> x" "x < Suc e"
    then consider "x = c" | "c < x" "x < e" | "x = e" by linarith
    then show "m_MARKER s ! x = CHR 0x00 \<and> \<not> (x < uw g \<and> u_pixel g x y)"
    proof cases
      case 1
      with assms(5,11) np act [of c] False show ?thesis by simp
    next
      case 2
      with inner [of x] act [of x] False show ?thesis by simp
    next
      case 3
      with assms(12) np bg show ?thesis by simp
    qed
  qed
  with False assms(1,7) show ?thesis by simp
qed

lemma upt_split:
  assumes "i \<le> j" and "j \<le> k"
  shows "[i..<k] = [i..<j] @ [j..<k]"
  using assms by (metis le_add_diff_inverse upt_add_eq_append)

lemma columns_split:
  assumes "a < ea" and "ea < b" and "b < eb" and "eb \<le> w"
  shows "map int [0..<Suc w] = map int [0..<a] @ map int [a..<Suc ea] @ map int [Suc ea..<b]
     @ map int [b..<Suc eb] @ map int [Suc eb..<Suc w]"
proof -
  have "[0..<Suc w] = [0..<a] @ [a..<Suc w]"
    using assms by (intro upt_split) simp_all
  also have "[a..<Suc w] = [a..<Suc ea] @ [Suc ea..<Suc w]"
    using assms by (intro upt_split) simp_all
  also have "[Suc ea..<Suc w] = [Suc ea..<b] @ [b..<Suc w]"
    using assms by (intro upt_split) simp_all
  also have "[b..<Suc w] = [b..<Suc eb] @ [Suc eb..<Suc w]"
    using assms by (intro upt_split) simp_all
  finally show ?thesis
    by (simp only: map_append)
qed

section \<open>The rows of a U-shaped grid\<close>

lemma pixel_positions_simps:
  "pixel_positions [] = []"
  "pixel_positions (xs @ ys) = pixel_positions xs @ pixel_positions ys"
  "pixel_positions (pixel_at w img x y # ps) = (int x, int y) # pixel_positions ps"
  "pixel_positions (map (\<lambda>x. pixel_at w img x y) ns) = map (\<lambda>x. (int x, int y)) ns"
  by (simp_all add: pixel_positions_def pixel_at_def pixData_ctor_def comp_def)

lemma bar_list_Suc:
  assumes "t \<le> k"
  shows "bar_list c e t (Suc k) = bar_list c e t k @ map (\<lambda>x. (int x, int k)) [c..<e]"
  using assms by (simp add: bar_list_def)

lemma bar_list_empty:
  assumes "k \<le> t"
  shows "bar_list c e t k = []"
  using assms by (simp add: bar_list_def)

lemma u_pixel_bars:
  assumes "u_fits g" and "k < ur g"
  shows "u_pixel g x k = ((ua g \<le> x \<and> x < uea g \<and> uta g \<le> k)
     \<or> (ub g \<le> x \<and> x < ueb g \<and> utb g \<le> k))"
  using assms by (auto simp: u_pixel_def)

lemma scanned_reset:
  assumes "scanned g img thr k s"
  shows "ready (uw g) (uh g) img thr (s\<lparr>m_PS := COMPLETE, m_CS := NONOBJECT\<rparr>)"
    and "quiet (s\<lparr>m_PS := COMPLETE, m_CS := NONOBJECT\<rparr>)"
    and "m_MARKER (s\<lparr>m_PS := COMPLETE, m_CS := NONOBJECT\<rparr>) = m_MARKER s"
    and "m_STORE (s\<lparr>m_PS := COMPLETE, m_CS := NONOBJECT\<rparr>) = m_STORE s"
    and "m_Objects (s\<lparr>m_PS := COMPLETE, m_CS := NONOBJECT\<rparr>) = m_Objects s"
  using assms by (simp_all add: scanned_def ready_def quiet_def)

lemma row_bars:
  assumes fits: "u_fits g" and img: "shows_u g img thr" and inv: "scanned g img thr k s"
    and k: "k < ur g"
  shows "\<exists>s'. run_row (int k) s = Inr s' \<and> scanned g img thr (Suc k) s'"
proof -
  let ?w = "uw g" and ?a = "ua g" and ?ea = "uea g" and ?b = "ub g" and ?eb = "ueb g"
  let ?col = "column ?w (int k)"
  let ?s0 = "s\<lparr>m_PS := COMPLETE, m_CS := NONOBJECT\<rparr>"
  let ?p = "\<lambda>x. pixel_at ?w img x k"
  note r0 = scanned_reset [OF inv]
  from fits have geo: "?a < ?ea" "?ea < ?b" "?b < ?eb" "?eb \<le> ?w"
      "uta g < ur g" "utb g < ur g" "ur g < uh g"
    by (simp_all add: u_fits_def)
  then have w2: "2 \<le> ?w" and kh: "k < uh g" and eaw: "?ea \<le> ?w" using k by simp_all
  have mk: "m_MARKER s ! x = marker_after g k x" if "x \<le> ?w" for x
    using inv that by (simp add: scanned_def)
  have st: "pixel_positions (m_STORE s ! i) = store_after g k i" if "i < ?w" for i
    using inv that by (simp add: scanned_def)
  have len: "length (m_MARKER s) = Suc ?w" "length (m_STORE s) = ?w"
    using inv by (simp_all add: scanned_def ready_def)
  note px = u_pixel_bars [OF fits k]
  \<comment> \<open>columns left of the left bar\<close>
  have A: "foldE ?col (map int [0..<?a]) ?s0 = Inr ?s0"
  proof (rule skip_columns [OF r0(1) img kh])
    show "?a \<le> Suc ?w" using geo by simp
    show "m_CS ?s0 = NONOBJECT" by simp
    fix x assume "0 \<le> x" "x < ?a"
    then show "m_MARKER ?s0 ! x = CHR 0x00 \<and> \<not> (x < ?w \<and> u_pixel g x k)"
      using geo k mk [of x] by (simp add: px marker_after_def)
  qed
  \<comment> \<open>the left bar\<close>
  have "\<exists>s'. foldE ?col (map int [?a..<Suc ?ea]) ?s0 = Inr s'
     \<and> ready ?w (uh g) img thr s' \<and> quiet s'
     \<and> m_MARKER s' = (if uta g \<le> k
          then (m_MARKER ?s0)[?a := CHR ''S'', ?ea := CHR ''F''] else m_MARKER ?s0)
     \<and> m_STORE s' = (if uta g \<le> k
          then (m_STORE ?s0)[?a := m_STORE ?s0 ! ?a @ map ?p [?a..<?ea]] else m_STORE ?s0)
     \<and> m_Objects s' = m_Objects ?s0"
  proof (rule bar_or_skip [OF r0(1) img kh w2 geo(1) eaw r0(2), where prev = "uta g < k"])
    show "u_pixel g x k = (uta g \<le> k)" if "?a \<le> x" "x < ?ea" for x
      using that geo by (auto simp: px)
    show "\<not> (?ea < ?w \<and> u_pixel g ?ea k)" using geo by (simp add: px)
    show "m_MARKER ?s0 ! x = CHR 0x00" if "?a < x" "x < ?ea" for x
      using that geo k mk [of x] by (simp add: marker_after_def)
    show "m_MARKER ?s0 ! ?a = (if uta g < k then CHR ''S'' else CHR 0x00)"
      using geo k mk [of ?a] by (simp add: marker_after_def)
    show "m_MARKER ?s0 ! ?ea = (if uta g < k then CHR ''F'' else CHR 0x00)"
      using geo k mk [of ?ea] by (simp add: marker_after_def)
    show "uta g < k \<longrightarrow> uta g \<le> k" by simp
  qed
  then obtain s1 where s1: "foldE ?col (map int [?a..<Suc ?ea]) ?s0 = Inr s1"
      "ready ?w (uh g) img thr s1" "quiet s1"
      "m_MARKER s1 = (if uta g \<le> k then (m_MARKER s)[?a := CHR ''S'', ?ea := CHR ''F'']
         else m_MARKER s)"
      "m_STORE s1 = (if uta g \<le> k
         then (m_STORE s)[?a := m_STORE s ! ?a @ map ?p [?a..<?ea]] else m_STORE s)"
      "m_Objects s1 = m_Objects s"
    by (auto simp only: r0(3-5))
  have m1: "m_MARKER s1 ! x = m_MARKER s ! x" if "?ea < x" for x
    using that s1(4) geo by simp
  \<comment> \<open>between the bars\<close>
  have B: "foldE ?col (map int [Suc ?ea..<?b]) s1 = Inr s1"
  proof (rule skip_columns [OF s1(2) img kh])
    show "?b \<le> Suc ?w" using geo by simp
    show "m_CS s1 = NONOBJECT" using s1(3) by (simp add: quiet_def)
    fix x assume "Suc ?ea \<le> x" "x < ?b"
    then show "m_MARKER s1 ! x = CHR 0x00 \<and> \<not> (x < ?w \<and> u_pixel g x k)"
      using geo k mk [of x] m1 [of x] by (simp add: px marker_after_def)
  qed
  \<comment> \<open>the right bar\<close>
  have "\<exists>s'. foldE ?col (map int [?b..<Suc ?eb]) s1 = Inr s'
     \<and> ready ?w (uh g) img thr s' \<and> quiet s'
     \<and> m_MARKER s' = (if utb g \<le> k
          then (m_MARKER s1)[?b := CHR ''S'', ?eb := CHR ''F''] else m_MARKER s1)
     \<and> m_STORE s' = (if utb g \<le> k
          then (m_STORE s1)[?b := m_STORE s1 ! ?b @ map ?p [?b..<?eb]] else m_STORE s1)
     \<and> m_Objects s' = m_Objects s1"
  proof (rule bar_or_skip [OF s1(2) img kh w2 geo(3,4) s1(3), where prev = "utb g < k"])
    show "u_pixel g x k = (utb g \<le> k)" if "?b \<le> x" "x < ?eb" for x
      using that geo by (auto simp: px)
    show "\<not> (?eb < ?w \<and> u_pixel g ?eb k)" using geo by (simp add: px)
    show "m_MARKER s1 ! x = CHR 0x00" if "?b < x" "x < ?eb" for x
      using that geo k mk [of x] m1 [of x] by (simp add: marker_after_def)
    show "m_MARKER s1 ! ?b = (if utb g < k then CHR ''S'' else CHR 0x00)"
      using geo k mk [of ?b] m1 [of ?b] by (simp add: marker_after_def)
    show "m_MARKER s1 ! ?eb = (if utb g < k then CHR ''F'' else CHR 0x00)"
      using geo k mk [of ?eb] m1 [of ?eb] by (simp add: marker_after_def)
    show "utb g < k \<longrightarrow> utb g \<le> k" by simp
  qed
  then obtain s2 where s2: "foldE ?col (map int [?b..<Suc ?eb]) s1 = Inr s2"
      "ready ?w (uh g) img thr s2" "quiet s2"
      "m_MARKER s2 = (if utb g \<le> k then (m_MARKER s1)[?b := CHR ''S'', ?eb := CHR ''F'']
         else m_MARKER s1)"
      "m_STORE s2 = (if utb g \<le> k
         then (m_STORE s1)[?b := m_STORE s1 ! ?b @ map ?p [?b..<?eb]] else m_STORE s1)"
      "m_Objects s2 = m_Objects s1"
    by blast
  have m2: "m_MARKER s2 ! x = m_MARKER s ! x" if "?eb < x" for x
    using that s2(4) m1 [of x] geo by simp
  \<comment> \<open>right of the right bar, with the trailing marker\<close>
  have C: "foldE ?col (map int [Suc ?eb..<Suc ?w]) s2 = Inr s2"
  proof (rule skip_columns [OF s2(2) img kh])
    show "Suc ?w \<le> Suc ?w" by simp
    show "m_CS s2 = NONOBJECT" using s2(3) by (simp add: quiet_def)
    fix x assume "Suc ?eb \<le> x" "x < Suc ?w"
    then show "m_MARKER s2 ! x = CHR 0x00 \<and> \<not> (x < ?w \<and> u_pixel g x k)"
      using geo k mk [of x] m2 [of x] by (simp add: px marker_after_def)
  qed
  have "foldE ?col (map int [0..<Suc ?w]) ?s0 = Inr s2"
    unfolding columns_split [OF geo(1-4)]
    by (intro foldE_chain [OF A] foldE_chain [OF s1(1)] foldE_chain [OF B]
        foldE_chain [OF s2(1)] C)
  moreover have "m_xpix s = int ?w" using inv by (simp add: scanned_def ready_def)
  ultimately have run: "run_row (int k) s = Inr s2"
    by (simp only: run_row_columns)
  have M: "m_MARKER s2 ! x = marker_after g (Suc k) x" if "x \<le> ?w" for x
    using that mk [of x] geo k len
    by (auto simp add: s2(4) s1(4) marker_after_def nth_list_update)
  have S: "pixel_positions (m_STORE s2 ! i) = store_after g (Suc k) i" if "i < ?w" for i
    using that st [of i] geo k len
    by (auto simp add: s2(5) s1(5) store_after_def nth_list_update pixel_positions_simps
        bar_list_Suc bar_list_empty)
  have O: "m_Objects s2 = []"
    using inv k by (simp add: s2(6) s1(6) scanned_def)
  have "scanned g img thr (Suc k) s2"
    using s2(2,3) M S O k by (simp add: scanned_def quiet_def)
  with run show ?thesis by blast
qed

text \<open>
  The horizontal row, up to the first column of the right bar: a segment opens below the
  left bar, runs on below it, passes its end, and runs on through the gap.
\<close>

lemma join_prefix:
  assumes fits: "u_fits g" and img: "shows_u g img thr" and inv: "scanned g img thr (ur g) s"
  shows "\<exists>t. foldE (column (uw g) (int (ur g))) (map int [0..<ub g])
        (s\<lparr>m_PS := COMPLETE, m_CS := NONOBJECT\<rparr>) = Inr t
     \<and> ready (uw g) (uh g) img thr t
     \<and> opened (int (ua g))
         (m_STORE s ! ua g @ map (\<lambda>x. pixel_at (uw g) img x (ur g)) [ua g..<ub g]) t
     \<and> m_MARKER t = (m_MARKER s)[ua g := CHR ''S'', uea g := CHR 0x00]
     \<and> m_STORE t = (m_STORE s)[ua g := []] \<and> m_Objects t = m_Objects s"
proof -
  let ?w = "uw g" and ?a = "ua g" and ?ea = "uea g" and ?b = "ub g" and ?eb = "ueb g"
  let ?r = "ur g"
  let ?col = "column ?w (int ?r)"
  let ?s0 = "s\<lparr>m_PS := COMPLETE, m_CS := NONOBJECT\<rparr>"
  let ?p = "\<lambda>x. pixel_at ?w img x ?r"
  note r0 = scanned_reset [OF inv]
  from fits have geo: "?a < ?ea" "?ea < ?b" "?b < ?eb" "?eb \<le> ?w"
      "uta g < ?r" "utb g < ?r" "?r < uh g"
    by (simp_all add: u_fits_def)
  then have w2: "2 \<le> ?w" and aw: "?a < ?w" "?ea < ?w" "?ea \<le> ?w" "?b \<le> ?w" by simp_all
  have mk: "m_MARKER s ! x = marker_after g ?r x" if "x \<le> ?w" for x
    using inv that by (simp add: scanned_def)
  have px: "u_pixel g x ?r = (?a \<le> x \<and> x < ?eb)" for x
    by (auto simp: u_pixel_def)
  have A: "foldE ?col (map int [0..<?a]) ?s0 = Inr ?s0"
  proof (rule skip_columns [OF r0(1) img geo(7)])
    show "?a \<le> Suc ?w" using geo by simp
    show "m_CS ?s0 = NONOBJECT" by simp
    fix x assume "0 \<le> x" "x < ?a"
    then show "m_MARKER ?s0 ! x = CHR 0x00 \<and> \<not> (x < ?w \<and> u_pixel g x ?r)"
      using geo mk [of x] by (simp add: px marker_after_def)
  qed
  \<comment> \<open>column \<open>a\<close>: a segment starts below the left bar\<close>
  have "m_MARKER ?s0 ! ?a = CHR ''S''"
    using geo mk [of ?a] by (simp add: marker_after_def)
  from step_fg_open_below [OF r0(1) w2 aw(1) r0(2) this, of "?p ?a"]
  obtain s1 where s1: "step_fg (?p ?a) (int ?a) ?s0 = Inr s1" "ready ?w (uh g) img thr s1"
      "joined (int ?a) (m_STORE s ! ?a @ [?p ?a]) s1"
      "m_MARKER s1 = (m_MARKER s)[?a := CHR ''S'']" "m_STORE s1 = (m_STORE s)[?a := []]"
      "m_Objects s1 = m_Objects s"
    by (auto simp only: r0(3-5))
  have c1: "foldE ?col (map int [?a]) ?s0 = Inr s1"
    using column_u [OF r0(1) img geo(7), of ?a] geo s1(1) by (simp add: px)
  \<comment> \<open>the other columns below the left bar\<close>
  have "\<exists>s'. foldE ?col (map int [Suc ?a..<?ea]) s1 = Inr s'
     \<and> ready ?w (uh g) img thr s'
     \<and> joined (int ?a) ((m_STORE s ! ?a @ [?p ?a]) @ map ?p [Suc ?a..<?ea]) s'
     \<and> m_MARKER s' = m_MARKER s1 \<and> m_STORE s' = m_STORE s1 \<and> m_Objects s' = m_Objects s1"
  proof (rule push_columns [where P = joined, OF s1(2) img geo(7) w2 aw(3) _ s1(3)])
    show "joined = opened \<or> joined = joined" by simp
    fix x assume "Suc ?a \<le> x" "x < ?ea"
    then show "m_MARKER s1 ! x = CHR 0x00 \<and> u_pixel g x ?r"
      using geo mk [of x] by (simp add: s1(4) px marker_after_def)
  qed
  then obtain s2 where s2: "foldE ?col (map int [Suc ?a..<?ea]) s1 = Inr s2"
      "ready ?w (uh g) img thr s2"
      "joined (int ?a) ((m_STORE s ! ?a @ [?p ?a]) @ map ?p [Suc ?a..<?ea]) s2"
      "m_MARKER s2 = m_MARKER s1" "m_STORE s2 = m_STORE s1" "m_Objects s2 = m_Objects s1"
    by blast
  \<comment> \<open>column \<open>ea\<close>: the left bar has ended above\<close>
  have "m_MARKER s2 ! ?ea = CHR ''F''"
    using geo mk [of ?ea] by (simp add: s2(4) s1(4) marker_after_def)
  from step_fg_pass_end [OF s2(2) w2 aw(2) s2(3) this, of "?p ?ea"]
  obtain s3 where s3: "step_fg (?p ?ea) (int ?ea) s2 = Inr s3"
      "ready ?w (uh g) img thr s3"
      "opened (int ?a) (((m_STORE s ! ?a @ [?p ?a]) @ map ?p [Suc ?a..<?ea]) @ [?p ?ea]) s3"
      "m_MARKER s3 = (m_MARKER s2)[?ea := CHR 0x00]" "m_STORE s3 = m_STORE s2"
      "m_Objects s3 = m_Objects s2"
    by auto
  have c3: "foldE ?col (map int [?ea]) s2 = Inr s3"
    using column_u [OF s2(2) img geo(7), of ?ea] geo s3(1) by (simp add: px)
  \<comment> \<open>the columns between the bars\<close>
  have "\<exists>s'. foldE ?col (map int [Suc ?ea..<?b]) s3 = Inr s'
     \<and> ready ?w (uh g) img thr s'
     \<and> opened (int ?a)
         ((((m_STORE s ! ?a @ [?p ?a]) @ map ?p [Suc ?a..<?ea]) @ [?p ?ea])
           @ map ?p [Suc ?ea..<?b]) s'
     \<and> m_MARKER s' = m_MARKER s3 \<and> m_STORE s' = m_STORE s3 \<and> m_Objects s' = m_Objects s3"
  proof (rule push_columns [where P = opened, OF s3(2) img geo(7) w2 aw(4) _ s3(3)])
    show "opened = opened \<or> opened = joined" by simp
    fix x assume "Suc ?ea \<le> x" "x < ?b"
    then show "m_MARKER s3 ! x = CHR 0x00 \<and> u_pixel g x ?r"
      using geo mk [of x] by (simp add: s3(4) s2(4) s1(4) px marker_after_def)
  qed
  then obtain s4 where s4: "foldE ?col (map int [Suc ?ea..<?b]) s3 = Inr s4"
      "ready ?w (uh g) img thr s4"
      "opened (int ?a)
         ((((m_STORE s ! ?a @ [?p ?a]) @ map ?p [Suc ?a..<?ea]) @ [?p ?ea])
           @ map ?p [Suc ?ea..<?b]) s4"
      "m_MARKER s4 = m_MARKER s3" "m_STORE s4 = m_STORE s3" "m_Objects s4 = m_Objects s3"
    by blast
  have row: "[?a..<?b] = [?a] @ [Suc ?a..<?ea] @ [?ea] @ [Suc ?ea..<?b]"
  proof -
    have "[?a..<?b] = [?a..<?ea] @ [?ea..<?b]"
      using geo by (intro upt_split) simp_all
    then show ?thesis
      using geo by (simp add: upt_conv_Cons)
  qed
  have split: "map int [0..<?b] = map int [0..<?a] @ map int [?a] @ map int [Suc ?a..<?ea]
      @ map int [?ea] @ map int [Suc ?ea..<?b]"
  proof -
    have "[0..<?b] = [0..<?a] @ [?a..<?b]"
      using geo by (intro upt_split) simp_all
    then show ?thesis
      by (simp only: row map_append)
  qed
  have "foldE ?col (map int [0..<?b]) ?s0 = Inr s4"
    unfolding split
    by (intro foldE_chain [OF A] foldE_chain [OF c1] foldE_chain [OF s2(1)]
        foldE_chain [OF c3] s4(1))
  moreover have "opened (int ?a) (m_STORE s ! ?a @ map ?p [?a..<?b]) s4"
    using s4(3) by (simp add: row)
  ultimately show ?thesis
    using s4(2) by (auto simp add: s4(4-6) s3(4-6) s2(4-6) s1(4-6))
qed

lemma row_join:
  assumes fits: "u_fits g" and img: "shows_u g img thr" and inv: "scanned g img thr (ur g) s"
  shows "\<exists>s'. run_row (int (ur g)) s = Inr s' \<and> scanned g img thr (Suc (ur g)) s'"
proof -
  let ?w = "uw g" and ?a = "ua g" and ?ea = "uea g" and ?b = "ub g" and ?eb = "ueb g"
  let ?r = "ur g"
  let ?col = "column ?w (int ?r)"
  let ?s0 = "s\<lparr>m_PS := COMPLETE, m_CS := NONOBJECT\<rparr>"
  let ?p = "\<lambda>x. pixel_at ?w img x ?r"
  let ?I = "m_STORE s ! ?a @ map ?p [?a..<?b]"
  from fits have geo: "?a < ?ea" "?ea < ?b" "?b < ?eb" "?eb \<le> ?w"
      "uta g < ?r" "utb g < ?r" "?r < uh g"
    by (simp_all add: u_fits_def)
  then have w2: "2 \<le> ?w" and aw: "?a < ?w" "?b < ?w" by simp_all
  have mk: "m_MARKER s ! x = marker_after g ?r x" if "x \<le> ?w" for x
    using inv that by (simp add: scanned_def)
  have st: "pixel_positions (m_STORE s ! i) = store_after g ?r i" if "i < ?w" for i
    using inv that by (simp add: scanned_def)
  have len: "length (m_MARKER s) = Suc ?w" "length (m_STORE s) = ?w"
    using inv by (simp_all add: scanned_def ready_def)
  have px: "u_pixel g x ?r = (?a \<le> x \<and> x < ?eb)" for x
    by (auto simp: u_pixel_def)
  from join_prefix [OF assms]
  obtain s3 where s3: "foldE ?col (map int [0..<?b]) ?s0 = Inr s3"
      "ready ?w (uh g) img thr s3" "opened (int ?a) ?I s3"
      "m_MARKER s3 = (m_MARKER s)[?a := CHR ''S'', ?ea := CHR 0x00]"
      "m_STORE s3 = (m_STORE s)[?a := []]" "m_Objects s3 = m_Objects s"
    by blast
  \<comment> \<open>column \<open>b\<close>: the open segment meets the start of the right bar\<close>
  have "m_MARKER s3 ! ?b = CHR ''S''"
    using geo mk [of ?b] by (simp add: s3(4) marker_after_def)
  from step_fg_meet_start [OF s3(2) w2 aw(2) s3(3) this, of "?p ?b"]
  obtain s4 where s4: "step_fg (?p ?b) (int ?b) s3 = Inr s4" "ready ?w (uh g) img thr s4"
      "joined (int ?a) (?I @ m_STORE s3 ! ?b @ [?p ?b]) s4"
      "m_MARKER s4 = (m_MARKER s3)[?b := CHR 0x00]" "m_STORE s4 = (m_STORE s3)[?b := []]"
      "m_Objects s4 = m_Objects s3"
    by blast
  have c4: "foldE ?col (map int [?b]) s3 = Inr s4"
    using column_u [OF s3(2) img geo(7), of ?b] geo s4(1) by (simp add: px)
  \<comment> \<open>the other columns below the right bar\<close>
  have "\<exists>s'. foldE ?col (map int [Suc ?b..<?eb]) s4 = Inr s'
     \<and> ready ?w (uh g) img thr s'
     \<and> joined (int ?a) ((?I @ m_STORE s3 ! ?b @ [?p ?b]) @ map ?p [Suc ?b..<?eb]) s'
     \<and> m_MARKER s' = m_MARKER s4 \<and> m_STORE s' = m_STORE s4 \<and> m_Objects s' = m_Objects s4"
  proof (rule push_columns [where P = joined, OF s4(2) img geo(7) w2 geo(4) _ s4(3)])
    show "joined = opened \<or> joined = joined" by simp
    fix x assume "Suc ?b \<le> x" "x < ?eb"
    then show "m_MARKER s4 ! x = CHR 0x00 \<and> u_pixel g x ?r"
      using geo mk [of x] by (simp add: s4(4) s3(4) px marker_after_def)
  qed
  then obtain s5 where s5: "foldE ?col (map int [Suc ?b..<?eb]) s4 = Inr s5"
      "ready ?w (uh g) img thr s5"
      "joined (int ?a) ((?I @ m_STORE s3 ! ?b @ [?p ?b]) @ map ?p [Suc ?b..<?eb]) s5"
      "m_MARKER s5 = m_MARKER s4" "m_STORE s5 = m_STORE s4" "m_Objects s5 = m_Objects s4"
    by blast
  \<comment> \<open>column \<open>eb\<close>: the right bar has ended above, and the segment ends\<close>
  have "m_MARKER s5 ! ?eb = CHR ''F''"
    using geo mk [of ?eb] by (simp add: s5(4) s4(4) s3(4) marker_after_def)
  from step_bg_close_end [OF s5(2) w2 geo(4) s5(3) aw(1) this]
  obtain s6 where s6: "step_bg (int ?eb) s5 = Inr s6" "ready ?w (uh g) img thr s6"
      "quiet s6" "m_MARKER s6 = (m_MARKER s5)[?eb := CHR ''F'']"
      "m_STORE s6 = (m_STORE s5)[?a := m_STORE s5 ! ?a
         @ ((?I @ m_STORE s3 ! ?b @ [?p ?b]) @ map ?p [Suc ?b..<?eb])]"
      "m_Objects s6 = m_Objects s5"
    by auto
  have c6: "foldE ?col (map int [?eb]) s5 = Inr s6"
    using column_u [OF s5(2) img geo(7) geo(4)] s6(1) by (simp add: px)
  have C: "foldE ?col (map int [Suc ?eb..<Suc ?w]) s6 = Inr s6"
  proof (rule skip_columns [OF s6(2) img geo(7)])
    show "Suc ?w \<le> Suc ?w" by simp
    show "m_CS s6 = NONOBJECT" using s6(3) by (simp add: quiet_def)
    fix x assume "Suc ?eb \<le> x" "x < Suc ?w"
    then show "m_MARKER s6 ! x = CHR 0x00 \<and> \<not> (x < ?w \<and> u_pixel g x ?r)"
      using geo mk [of x] by (simp add: s6(4) s5(4) s4(4) s3(4) px marker_after_def)
  qed
  have split: "map int [0..<Suc ?w] = map int [0..<?b] @ map int [?b] @ map int [Suc ?b..<?eb]
      @ map int [?eb] @ map int [Suc ?eb..<Suc ?w]"
  proof -
    have "[0..<Suc ?w] = [0..<?b] @ [?b..<Suc ?w]"
      using geo by (intro upt_split) simp_all
    also have "[?b..<Suc ?w] = [?b..<?eb] @ [?eb..<Suc ?w]"
      using geo by (intro upt_split) simp_all
    finally show ?thesis
      using geo by (simp add: upt_conv_Cons del: upt_Suc)
  qed
  have "foldE ?col (map int [0..<Suc ?w]) ?s0 = Inr s6"
    unfolding split
    by (intro foldE_chain [OF s3(1)] foldE_chain [OF c4] foldE_chain [OF s5(1)]
        foldE_chain [OF c6] C)
  moreover have "m_xpix s = int ?w" using inv by (simp add: scanned_def ready_def)
  ultimately have run: "run_row (int ?r) s = Inr s6"
    by (simp only: run_row_columns)
  have M: "m_MARKER s6 ! x = marker_after g (Suc ?r) x" if "x \<le> ?w" for x
    using that mk [of x] geo len
    by (auto simp add: s6(4) s5(4) s4(4) s3(4) marker_after_def nth_list_update)
  have rowb: "[?b..<?eb] = ?b # [Suc ?b..<?eb]"
    using geo by (simp add: upt_conv_Cons)
  have Sa: "pixel_positions (m_STORE s6 ! ?a) = u_list g"
    using st [of ?a] st [of ?b] geo len
    by (simp add: s6(5) s5(5) s4(5) s3(5) pixel_positions_simps store_after_def u_list_def rowb)
  have Sx: "pixel_positions (m_STORE s6 ! i) = []" if "i < ?w" "i \<noteq> ?a" for i
    using that st [of i] geo len
    by (auto simp add: s6(5) s5(5) s4(5) s3(5) pixel_positions_simps store_after_def
        nth_list_update)
  have S: "pixel_positions (m_STORE s6 ! i) = store_after g (Suc ?r) i" if "i < ?w" for i
    using that Sa Sx [of i] by (simp add: store_after_def)
  have O: "m_Objects s6 = []"
    using inv by (simp add: s6(6) s5(6) s4(6) s3(6) scanned_def)
  have "scanned g img thr (Suc ?r) s6"
    using s6(2,3) M S O by (simp add: scanned_def quiet_def)
  with run show ?thesis by blast
qed

lemma set_positions_append:
  "set (positions (lutzObject_append obj p)) = insert (m_xbin p, m_ybin p) (set (positions obj))"
  by (auto simp: lutzObject_append_def lutzObject_contains_def positions_def pixel_positions_def
      same_position_def list_ex_iff)

lemma set_positions_append_list:
  "set (positions (lutzObject_append_list obj ps)) = set (positions obj) \<union> set (pixel_positions ps)"
  unfolding lutzObject_append_list_def
proof (induction ps arbitrary: obj)
  case Nil
  then show ?case by (simp add: pixel_positions_def)
next
  case (Cons p ps)
  then show ?case
    by (simp add: set_positions_append) (simp add: pixel_positions_def)
qed

lemma positions_ctor: "positions lutzObject_ctor = []"
  by (simp add: positions_def pixel_positions_def lutzObject_ctor_def)

lemma row_flush:
  assumes fits: "u_fits g" and img: "shows_u g img thr"
    and inv: "scanned g img thr (Suc (ur g)) s" and h: "Suc (ur g) < uh g"
  shows "\<exists>s'. run_row (int (Suc (ur g))) s = Inr s' \<and> scanned g img thr (Suc (Suc (ur g))) s'"
proof -
  let ?w = "uw g" and ?a = "ua g" and ?eb = "ueb g" and ?k = "Suc (ur g)"
  let ?col = "column ?w (int ?k)"
  let ?s0 = "s\<lparr>m_PS := COMPLETE, m_CS := NONOBJECT\<rparr>"
  let ?I = "m_STORE s ! ?a"
  note r0 = scanned_reset [OF inv]
  from fits have geo: "?a < uea g" "uea g < ub g" "ub g < ?eb" "?eb \<le> ?w"
      "uta g < ur g" "utb g < ur g" "ur g < uh g"
    by (simp_all add: u_fits_def)
  then have w2: "2 \<le> ?w" and aw: "?a < ?w" "?a < ?eb" by simp_all
  have mk: "m_MARKER s ! x = marker_after g ?k x" if "x \<le> ?w" for x
    using inv that by (simp add: scanned_def)
  have st: "pixel_positions (m_STORE s ! i) = store_after g ?k i" if "i < ?w" for i
    using inv that by (simp add: scanned_def)
  have len: "length (m_MARKER s) = Suc ?w" "length (m_STORE s) = ?w"
    using inv by (simp_all add: scanned_def ready_def)
  have px: "\<not> u_pixel g x ?k" for x
    using geo by (auto simp: u_pixel_def)
  have A: "foldE ?col (map int [0..<?a]) ?s0 = Inr ?s0"
  proof (rule skip_columns [OF r0(1) img h])
    show "?a \<le> Suc ?w" using geo by simp
    show "m_CS ?s0 = NONOBJECT" by simp
    fix x assume "0 \<le> x" "x < ?a"
    then show "m_MARKER ?s0 ! x = CHR 0x00 \<and> \<not> (x < ?w \<and> u_pixel g x ?k)"
      using geo mk [of x] by (simp add: px marker_after_def)
  qed
  \<comment> \<open>column \<open>a\<close>: the object of the row above is taken into slot 1\<close>
  have "m_MARKER ?s0 ! ?a = CHR ''S''"
    using geo mk [of ?a] by (simp add: marker_after_def)
  from step_bg_take_over [OF r0(1) w2 aw(1) r0(2) this]
  obtain s1 where s1: "step_bg (int ?a) ?s0 = Inr s1" "ready ?w (uh g) img thr s1"
      "finishing ?I s1" "m_MARKER s1 = (m_MARKER s)[?a := CHR 0x00]"
      "m_STORE s1 = (m_STORE s)[?a := []]" "m_Objects s1 = m_Objects s"
    by (auto simp only: r0(3-5))
  have c1: "foldE ?col (map int [?a]) ?s0 = Inr s1"
    using column_u [OF r0(1) img h, of ?a] geo s1(1) by (simp add: px)
  have B: "foldE ?col (map int [Suc ?a..<?eb]) s1 = Inr s1"
  proof (rule skip_columns [OF s1(2) img h])
    show "?eb \<le> Suc ?w" using geo by simp
    show "m_CS s1 = NONOBJECT" using s1(3) by (simp add: finishing_def)
    fix x assume "Suc ?a \<le> x" "x < ?eb"
    then show "m_MARKER s1 ! x = CHR 0x00 \<and> \<not> (x < ?w \<and> u_pixel g x ?k)"
      using geo mk [of x] by (simp add: s1(4) px marker_after_def)
  qed
  \<comment> \<open>column \<open>eb\<close>: the object has ended, and is written\<close>
  have I: "pixel_positions ?I = u_list g"
    using st [of ?a] aw by (simp add: store_after_def)
  have "[ua g..<ub g] \<noteq> []"
    using geo by simp
  then have "u_list g \<noteq> []"
    by (simp add: u_list_def)
  with I have ne: "?I \<noteq> []"
    by (auto simp: pixel_positions_def)
  have "m_MARKER s1 ! ?eb = CHR ''F''"
    using geo mk [of ?eb] by (simp add: s1(4) marker_after_def)
  from step_bg_flush [OF s1(2) w2 geo(4) s1(3) this ne]
  obtain s2 where s2: "step_bg (int ?eb) s1 = Inr s2" "ready ?w (uh g) img thr s2"
      "quiet s2" "m_MARKER s2 = (m_MARKER s1)[?eb := CHR 0x00]"
      "m_STORE s2 = m_STORE s1"
      "m_Objects s2 = m_Objects s1 @ [lutzObject_append_list lutzObject_ctor ?I]"
    by blast
  have c2: "foldE ?col (map int [?eb]) s1 = Inr s2"
    using column_u [OF s1(2) img h geo(4)] s2(1) by (simp add: px)
  have C: "foldE ?col (map int [Suc ?eb..<Suc ?w]) s2 = Inr s2"
  proof (rule skip_columns [OF s2(2) img h])
    show "Suc ?w \<le> Suc ?w" by simp
    show "m_CS s2 = NONOBJECT" using s2(3) by (simp add: quiet_def)
    fix x assume "Suc ?eb \<le> x" "x < Suc ?w"
    then show "m_MARKER s2 ! x = CHR 0x00 \<and> \<not> (x < ?w \<and> u_pixel g x ?k)"
      using geo mk [of x] by (simp add: s2(4) s1(4) px marker_after_def)
  qed
  have split: "map int [0..<Suc ?w] = map int [0..<?a] @ map int [?a] @ map int [Suc ?a..<?eb]
      @ map int [?eb] @ map int [Suc ?eb..<Suc ?w]"
  proof -
    have "[0..<Suc ?w] = [0..<?a] @ [?a..<Suc ?w]"
      using geo by (intro upt_split) simp_all
    also have "[?a..<Suc ?w] = [?a..<?eb] @ [?eb..<Suc ?w]"
      using geo by (intro upt_split) simp_all
    finally show ?thesis
      using geo by (simp add: upt_conv_Cons del: upt_Suc)
  qed
  have "foldE ?col (map int [0..<Suc ?w]) ?s0 = Inr s2"
    unfolding split
    by (intro foldE_chain [OF A] foldE_chain [OF c1] foldE_chain [OF B] foldE_chain [OF c2] C)
  moreover have "m_xpix s = int ?w" using inv by (simp add: scanned_def ready_def)
  ultimately have run: "run_row (int ?k) s = Inr s2"
    by (simp only: run_row_columns)
  have M: "m_MARKER s2 ! x = marker_after g (Suc ?k) x" if "x \<le> ?w" for x
    using that mk [of x] geo len
    by (auto simp add: s2(4) s1(4) marker_after_def nth_list_update)
  have S: "pixel_positions (m_STORE s2 ! i) = store_after g (Suc ?k) i" if "i < ?w" for i
    using that st [of i] geo len
    by (auto simp add: s2(5) s1(5) store_after_def nth_list_update pixel_positions_simps)
  have O: "\<exists>obj. m_Objects s2 = [obj] \<and> set (positions obj) = set (u_list g)"
    using inv I by (simp add: s2(6) s1(6) scanned_def set_positions_append_list positions_ctor)
  have "scanned g img thr (Suc ?k) s2"
    using s2(2,3) M S O by (simp add: scanned_def quiet_def)
  with run show ?thesis by blast
qed

lemma row_idle:
  assumes fits: "u_fits g" and img: "shows_u g img thr"
    and inv: "scanned g img thr k s" and k: "Suc (ur g) < k" "k < uh g"
  shows "\<exists>s'. run_row (int k) s = Inr s' \<and> scanned g img thr (Suc k) s'"
proof -
  let ?w = "uw g"
  let ?s0 = "s\<lparr>m_PS := COMPLETE, m_CS := NONOBJECT\<rparr>"
  note r0 = scanned_reset [OF inv]
  have mk: "m_MARKER s ! x = marker_after g k x" if "x \<le> ?w" for x
    using inv that by (simp add: scanned_def)
  have px: "\<not> u_pixel g x k" for x
    using fits k by (auto simp: u_pixel_def u_fits_def)
  have "foldE (column ?w (int k)) (map int [0..<Suc ?w]) ?s0 = Inr ?s0"
  proof (rule skip_columns [OF r0(1) img k(2)])
    show "Suc ?w \<le> Suc ?w" by simp
    show "m_CS ?s0 = NONOBJECT" by simp
    fix x assume "0 \<le> x" "x < Suc ?w"
    then show "m_MARKER ?s0 ! x = CHR 0x00 \<and> \<not> (x < ?w \<and> u_pixel g x k)"
      using k mk [of x] by (simp add: px marker_after_def)
  qed
  moreover have "m_xpix s = int ?w" using inv by (simp add: scanned_def ready_def)
  ultimately have run: "run_row (int k) s = Inr ?s0"
    by (simp only: run_row_columns)
  have "scanned g img thr (Suc k) ?s0"
    using inv k by (simp add: scanned_def ready_def marker_after_def store_after_def)
  with run show ?thesis by blast
qed

lemma row_scanned:
  assumes "u_fits g" and "shows_u g img thr" and "scanned g img thr k s" and "k < uh g"
  shows "\<exists>s'. run_row (int k) s = Inr s' \<and> scanned g img thr (Suc k) s'"
proof -
  consider "k < ur g" | "k = ur g" | "k = Suc (ur g)" | "Suc (ur g) < k"
    by linarith
  then show ?thesis
  proof cases
    case 1
    with assms show ?thesis by (simp add: row_bars)
  next
    case 2
    with assms show ?thesis by (simp add: row_join)
  next
    case 3
    with assms row_flush [of g img thr s] show ?thesis by blast
  next
    case 4
    with assms show ?thesis by (simp add: row_idle)
  qed
qed

lemma run_rows_Suc: "run_rows (Suc k) s = andThen (run_rows k s) (run_row (int k))"
  by (simp add: run_rows_def foldE_snoc)

lemma rows_scanned:
  assumes "u_fits g" and "shows_u g img thr" and "scanned g img thr 0 s" and "k \<le> uh g"
  shows "\<exists>s'. run_rows k s = Inr s' \<and> scanned g img thr k s'"
  using assms(4)
proof (induction k)
  case 0
  with assms(3) show ?case by (simp add: run_rows_def)
next
  case (Suc k)
  then obtain s1 where s1: "run_rows k s = Inr s1" "scanned g img thr k s1"
    by auto
  from row_scanned [OF assms(1,2) s1(2)] Suc.prems
  obtain s2 where "run_row (int k) s1 = Inr s2" "scanned g img thr (Suc k) s2"
    by auto
  with s1 show ?case
    by (simp add: run_rows_Suc)
qed

section \<open>The whole scan of a U-shaped grid\<close>

lemma StoreClearance_one:
  assumes len: "length (m_STORE s) = w" and a: "a < w"
    and others: "\<And>i. i < w \<Longrightarrow> i \<noteq> a \<Longrightarrow> m_STORE s ! i = []"
    and ne: "m_STORE s ! a \<noteq> []" and min: "m_npixelmin s = 0"
  shows "\<exists>s'. StoreClearance s = Inr s'
     \<and> m_Objects s' = m_Objects s @ [lutzObject_append_list lutzObject_ctor (m_STORE s ! a)]"
proof -
  let ?f = "\<lambda>i s.
        andThen (vget (m_STORE s) i) (\<lambda>obj.
        andThen (vput (m_STORE s) i []) (\<lambda>store.
          Inr ((WriteObject obj s)\<lparr>m_STORE := store\<rparr>)))"
  let ?t = "(WriteObject (m_STORE s ! a) s)\<lparr>m_STORE := (m_STORE s)[a := []]\<rparr>"
  have split: "map int [0..<w] = map int [0..<a] @ map int [a] @ map int [Suc a..<w]"
    using a by (metis le_add1 less_imp_le_nat map_append upt_add_eq_append upt_conv_Cons
        append_Cons append_Nil add.commute add_0 le_add_diff_inverse)
  have A: "foldE ?f (map int [0..<a]) s = Inr s"
    by (rule clear_columns_empty) (use len a others in auto)
  have B: "foldE ?f (map int [a]) s = Inr ?t"
    using len a by (simp add: vget_def vput_def)
  have st: "m_STORE ?t = (m_STORE s)[a := []]"
    by (simp add: WriteObject_def)
  have C: "foldE ?f (map int [Suc a..<w]) ?t = Inr ?t"
    by (rule clear_columns_empty) (use len a others in \<open>auto simp: st\<close>)
  have "StoreClearance s = Inr ?t"
    unfolding StoreClearance_def len split
    by (intro foldE_chain [OF A] foldE_chain [OF B] C)
  moreover have "m_Objects ?t = m_Objects s @ [lutzObject_append_list lutzObject_ctor (m_STORE s ! a)]"
    using ne min by (simp add: WriteObject_def)
  ultimately show ?thesis by blast
qed

lemma set_bar_list:
  "set (bar_list c e t k) = {(int x, int y) | x y. c \<le> x \<and> x < e \<and> t \<le> y \<and> y < k}"
  by (auto simp: bar_list_def)

lemma set_u_list:
  assumes "u_fits g"
  shows "set (u_list g) = u_positions g"
proof -
  from assms have geo: "ua g < uea g" "uea g < ub g" "ub g < ueb g" "ueb g \<le> uw g"
      "uta g < ur g" "utb g < ur g" "ur g < uh g"
    by (simp_all add: u_fits_def)
  show ?thesis
  proof (intro set_eqI iffI)
    fix p assume "p \<in> set (u_list g)"
    then show "p \<in> u_positions g"
      using geo by (auto simp: u_list_def set_bar_list u_positions_def u_pixel_def)
  next
    fix p assume "p \<in> u_positions g"
    then obtain x y where p: "p = (int x, int y)" "x < uw g" "y < uh g" "u_pixel g x y"
      by (auto simp: u_positions_def)
    from p(4) geo show "p \<in> set (u_list g)"
      unfolding p(1) u_list_def u_pixel_def set_append set_bar_list
      by (cases "x < ub g") auto
  qed
qed

lemma init_scanned:
  assumes "u_fits g" and "m_xpix s = int (uw g)" and "m_ypix s = int (uh g)"
    and "m_npixelmin s = 0" and "uw g * uh g < 2 ^ 31" and "m_image s = Some img"
    and "length img = uw g * uh g"
  shows "\<exists>s0. init_members s = Inr s0
     \<and> scanned g img (m_threshold s) 0 (s0\<lparr>co := 0, pstop := 0\<rparr>)"
proof -
  from assms(1) have "2 \<le> uh g" by (simp add: u_fits_def)
  then have "uw g * 2 \<le> uw g * uh g"
    by (intro mult_le_mono2)
  from this assms(5) have "uw g * 2 < 2 ^ 31" by (rule le_less_trans)
  then have "uw g + 1 < 2 ^ 31" by simp
  then have "int (uw g + 1) < 2 ^ 31"
    by (metis of_nat_less_iff of_nat_numeral of_nat_power)
  then have i: "init_members s = Inr (s\<lparr>m_Objects := [],
                  m_MARKER := replicate (nat (m_xpix s + 1)) (CHR 0x00),
                  m_PSSTACK := replicate (nat (m_xpix s)) COMPLETE,
                  m_START := replicate (nat (m_xpix s)) (- 1),
                  m_END := replicate (nat (m_xpix s)) (- 1),
                  m_INFO := replicate (nat (m_xpix s)) [],
                  m_STORE := replicate (nat (m_xpix s)) []\<rparr>)"
    using assms(2) by (intro init_members_ok) simp_all
  have n: "nat (int (uw g) + 1) = Suc (uw g)" by simp
  show ?thesis
    using assms unfolding i
    by (simp add: scanned_def ready_def marker_after_def store_after_def n pixel_positions_def
        bar_list_def del: replicate_Suc)
qed

lemma run_rows_done: "run s = andThen (rows_done (nat (m_ypix s)) s) StoreClearance"
  by (simp add: run_def rows_done_def init_members_def andThen_assoc)

lemma scanned_no_start_minor:
  assumes "scanned g img thr k t"
  shows "CHR ''s'' \<notin> set (m_MARKER t)"
proof
  assume "CHR ''s'' \<in> set (m_MARKER t)"
  then obtain x where x: "x < length (m_MARKER t)" "m_MARKER t ! x = CHR ''s''"
    by (auto simp: in_set_conv_nth)
  with assms have "x \<le> uw g" by (simp add: scanned_def ready_def)
  with assms have "m_MARKER t ! x = marker_after g k x" by (simp add: scanned_def)
  with x(2) show False
    by (simp add: marker_after_def split: if_splits)
qed

lemma scanned_finish:
  assumes fits: "u_fits g" and inv: "scanned g img thr (uh g) s"
  shows "\<exists>s' obj. StoreClearance s = Inr s' \<and> m_Objects s' = [obj]
     \<and> set (positions obj) = set (u_list g)"
proof -
  from fits have geo: "ua g < uea g" "uea g < ub g" "ub g < ueb g" "ueb g \<le> uw g"
      "ur g < uh g"
    by (simp_all add: u_fits_def)
  have st: "pixel_positions (m_STORE s ! i) = store_after g (uh g) i" if "i < uw g" for i
    using inv that by (simp add: scanned_def)
  have len: "length (m_STORE s) = uw g" and min: "m_npixelmin s = 0"
    using inv by (simp_all add: scanned_def ready_def)
  show ?thesis
  proof (cases "uh g = Suc (ur g)")
    case True
    have a: "ua g < uw g" using geo by simp
    have I: "pixel_positions (m_STORE s ! ua g) = u_list g"
      using st [OF a] True by (simp add: store_after_def)
    have "[ua g..<ub g] \<noteq> []"
      using geo by simp
    then have "u_list g \<noteq> []"
      by (simp add: u_list_def)
    with I have ne: "m_STORE s ! ua g \<noteq> []"
      by (auto simp: pixel_positions_def)
    have others: "m_STORE s ! i = []" if "i < uw g" "i \<noteq> ua g" for i
      using st [of i] that True by (simp add: store_after_def pixel_positions_def)
    from StoreClearance_one [OF len a others ne min]
    obtain s' where "StoreClearance s = Inr s'"
      "m_Objects s' = m_Objects s @ [lutzObject_append_list lutzObject_ctor (m_STORE s ! ua g)]"
      by blast
    moreover have "m_Objects s = []"
      using inv True by (simp add: scanned_def)
    ultimately show ?thesis
      using I by (simp add: set_positions_append_list positions_ctor)
  next
    case False
    with geo have late: "Suc (ur g) < uh g" by simp
    have "m_STORE s ! i = []" if "i < uw g" for i
      using st [OF that] late by (simp add: store_after_def pixel_positions_def)
    then have "\<forall>obj\<in>set (m_STORE s). obj = []"
      using len by (auto simp: in_set_conv_nth)
    then have "StoreClearance s = Inr s"
      by (rule StoreClearance_empty)
    then show ?thesis
      using inv late by (auto simp: scanned_def)
  qed
qed

text \<open>
  Claim C2, amended.  For every grid whose foreground is a U (two vertical bars, each at
  least one column wide and at least one column apart, joined by the horizontal row
  beneath them; everything else background; minimum size 0), \<open>run()\<close> emits exactly one
  Object, and its positions are exactly the positions of the U.  No row of the scan
  leaves a start-minor marker \<open>s\<close> behind, so the start-minor merge has no part in it.
  The arms are joined in the horizontal row: the scan reaches the right bar's first
  column with its segment open, finds the start-major marker \<open>S\<close> there, pushes one
  saved-status entry (\<open>pstop\<close> grows by one), leaves \<open>co\<close> and \<open>m_START\<close> as they are,
  and appends the right bar's pending pixels and then the pixel itself to the open
  fragment.
\<close>

theorem u_shape_one_object:
  assumes "u_shaped g s"
  shows "(\<exists>s' obj. run s = Inr s' \<and> m_Objects s' = [obj] \<and> set (positions obj) = u_positions g)
   \<and> (\<forall>k \<le> uh g. \<exists>t. rows_done k s = Inr t \<and> CHR ''s'' \<notin> set (m_MARKER t))
   \<and> (\<exists>sr t t'. rows_done (ur g) s = Inr sr
        \<and> foldE (run_pixel (int (ur g))) (map int [0..<ub g])
            (sr\<lparr>m_PS := COMPLETE, m_CS := NONOBJECT\<rparr>) = Inr t
        \<and> m_MARKER t ! ub g = CHR ''S'' \<and> m_CS t = OBJECT
        \<and> run_pixel (int (ur g)) (int (ub g)) t = Inr t'
        \<and> co t' = co t \<and> pstop t' = pstop t + 1 \<and> m_START t' = m_START t
        \<and> (\<exists>p. m_INFO t' ! 1 = m_INFO t ! 1 @ m_STORE t ! ub g @ [p]))"
proof -
  from assms obtain img where cfg: "u_fits g" "m_xpix s = int (uw g)" "m_ypix s = int (uh g)"
      "m_npixelmin s = 0" "uw g * uh g < 2 ^ 31" "m_image s = Some img"
      "length img = uw g * uh g" "shows_u g img (m_threshold s)"
    by (auto simp: u_shaped_def)
  let ?thr = "m_threshold s"
  from cfg(1) have geo: "ua g < uea g" "uea g < ub g" "ub g < uw g" "ur g < uh g"
    by (simp_all add: u_fits_def)
  from init_scanned [OF cfg(1-7)]
  obtain s0 where s0: "init_members s = Inr s0" "scanned g img ?thr 0 (s0\<lparr>co := 0, pstop := 0\<rparr>)"
    by blast
  have rows: "\<exists>t. rows_done k s = Inr t \<and> scanned g img ?thr k t" if "k \<le> uh g" for k
    using rows_scanned [OF cfg(1,8) s0(2) that] s0(1) by (simp add: rows_done_def)
  \<comment> \<open>the result\<close>
  from rows [of "uh g"] obtain sh where sh: "rows_done (uh g) s = Inr sh"
      "scanned g img ?thr (uh g) sh"
    by auto
  from scanned_finish [OF cfg(1) sh(2)] sh(1) cfg(3)
  have one: "\<exists>s' obj. run s = Inr s' \<and> m_Objects s' = [obj] \<and> set (positions obj) = u_positions g"
    by (simp add: run_rows_done set_u_list [OF cfg(1)])
  \<comment> \<open>the markers\<close>
  have markers: "\<forall>k \<le> uh g. \<exists>t. rows_done k s = Inr t \<and> CHR ''s'' \<notin> set (m_MARKER t)"
    using rows scanned_no_start_minor by blast
  \<comment> \<open>the join\<close>
  from rows [of "ur g"] geo obtain sr where sr: "rows_done (ur g) s = Inr sr"
      "scanned g img ?thr (ur g) sr"
    by auto
  let ?s0 = "sr\<lparr>m_PS := COMPLETE, m_CS := NONOBJECT\<rparr>"
  let ?I = "m_STORE sr ! ua g @ map (\<lambda>x. pixel_at (uw g) img x (ur g)) [ua g..<ub g]"
  let ?p = "pixel_at (uw g) img (ub g) (ur g)"
  from join_prefix [OF cfg(1,8) sr(2)]
  obtain t where t: "foldE (column (uw g) (int (ur g))) (map int [0..<ub g]) ?s0 = Inr t"
      "ready (uw g) (uh g) img ?thr t" "opened (int (ua g)) ?I t"
      "m_MARKER t = (m_MARKER sr)[ua g := CHR ''S'', uea g := CHR 0x00]"
    by blast
  have "foldE (run_pixel (int (ur g))) (map int [0..<ub g]) ?s0
      = foldE (column (uw g) (int (ur g))) (map int [0..<ub g]) ?s0"
    by (rule foldE_cong_on) (use geo in \<open>auto simp: column_def\<close>)
  with t(1) have pre: "foldE (run_pixel (int (ur g))) (map int [0..<ub g]) ?s0 = Inr t"
    by simp
  have "ub g \<le> uw g" using geo by simp
  with sr(2) have "m_MARKER sr ! ub g = marker_after g (ur g) (ub g)"
    by (simp add: scanned_def)
  with cfg(1) geo have mb: "m_MARKER t ! ub g = CHR ''S''"
    by (simp add: t(4) marker_after_def u_fits_def)
  have w2: "2 \<le> uw g" using geo by simp
  from step_fg_meet_start [OF t(2) w2 geo(3) t(3) mb, of ?p]
  obtain t' where t': "step_fg ?p (int (ub g)) t = Inr t'"
      "joined (int (ua g)) (?I @ m_STORE t ! ub g @ [?p]) t'" "m_START t' = m_START t"
    by blast
  have "u_pixel g (ub g) (ur g)"
    using cfg(1) by (simp add: u_pixel_def u_fits_def)
  then have "run_pixel (int (ur g)) (int (ub g)) t = Inr t'"
    using column_u [OF t(2) cfg(8) geo(4), of "ub g"] geo t'(1) by (simp add: column_def)
  with sr(1) pre mb t(3) t'(2,3)
  have join: "\<exists>sr t t'. rows_done (ur g) s = Inr sr
        \<and> foldE (run_pixel (int (ur g))) (map int [0..<ub g])
            (sr\<lparr>m_PS := COMPLETE, m_CS := NONOBJECT\<rparr>) = Inr t
        \<and> m_MARKER t ! ub g = CHR ''S'' \<and> m_CS t = OBJECT
        \<and> run_pixel (int (ur g)) (int (ub g)) t = Inr t'
        \<and> co t' = co t \<and> pstop t' = pstop t + 1 \<and> m_START t' = m_START t
        \<and> (\<exists>p. m_INFO t' ! 1 = m_INFO t ! 1 @ m_STORE t ! ub g @ [p])"
    by (auto simp: opened_def joined_def)
  from one markers join show ?thesis by blast
qed

lemma u_6x5_shaped: "u_shaped u_6x5_shape u_6x5"
proof -
  have "shows_u u_6x5_shape
     [0, 0, 0, 0, 0, 0,
      0, 1, 1, 0, 0, 0,
      0, 1, 1, 0, 1, 0,
      0, 1, 1, 1, 1, 0,
      0, 0, 0, 0, 0, 0] 0"
    by (simp add: shows_u_def u_6x5_shape_def u_pixel_def eval_nat_numeral All_less_Suc)
  then show ?thesis
    by (simp add: u_shaped_def u_fits_def u_6x5_def lutzOnePass_ctor_def)
      (simp add: u_6x5_shape_def)
qed

lemma run_u_6x5:
  "case run u_6x5 of
     Inl e \<Rightarrow> False
   | Inr s \<Rightarrow> map positions (m_Objects s)
       = [[(1, 1), (2, 1), (1, 2), (2, 2), (1, 3), (2, 3), (3, 3), (4, 2), (4, 3)]]"
  by code_simp

text \<open>The theorem applies to \<open>u_6x5\<close>, and the Object is the one the run computes.\<close>

theorem u_shape_one_object_witness:
  "u_shaped u_6x5_shape u_6x5
   \<and> (\<exists>s' obj. run u_6x5 = Inr s' \<and> m_Objects s' = [obj]
        \<and> set (positions obj) = u_positions u_6x5_shape
        \<and> positions obj = [(1, 1), (2, 1), (1, 2), (2, 2), (1, 3), (2, 3), (3, 3), (4, 2), (4, 3)])"
proof -
  from u_shape_one_object [OF u_6x5_shaped]
  obtain s' obj where r: "run u_6x5 = Inr s'" "m_Objects s' = [obj]"
      "set (positions obj) = u_positions u_6x5_shape"
    by blast
  with run_u_6x5
  have "positions obj = [(1, 1), (2, 1), (1, 2), (2, 2), (1, 3), (2, 3), (3, 3), (4, 2), (4, 3)]"
    by simp
  with r u_6x5_shaped show ?thesis by blast
qed

text \<open>
  Claim C2, as stated, has the start-minor merge join the arms, by popping one
  saved-status entry and handing the newer slot's start position to the earlier slot.
  On \<open>u_3x3\<close> the marker rows left by rows 0, 1 and 2 hold only \<open>S\<close>, \<open>F\<close> and 0.  In
  row 2 the scan reaches column 2 with a segment open in slot 1 and meets the marker
  \<open>S\<close>; the step pushes (\<open>pstop\<close> goes from 1 to 2), keeps \<open>co\<close> and \<open>m_START\<close>, and
  copies the two pixels waiting in \<open>m_STORE[2]\<close> into the open fragment.  The run ends
  with the one Object of seven pixels.
\<close>

lemma trace_u_3x3:
  "case rows_done 1 u_3x3 of Inl e \<Rightarrow> False | Inr s1 \<Rightarrow>
     m_MARKER s1 = [CHR ''S'', CHR ''F'', CHR ''S'', CHR ''F''] \<and>
   (case rows_done 2 u_3x3 of Inl e \<Rightarrow> False | Inr s2 \<Rightarrow>
     m_MARKER s2 = [CHR ''S'', CHR ''F'', CHR ''S'', CHR ''F''] \<and>
   (case foldE (run_pixel 2) [0, 1] (s2\<lparr>m_PS := COMPLETE, m_CS := NONOBJECT\<rparr>) of
      Inl e \<Rightarrow> False | Inr t \<Rightarrow>
     m_MARKER t ! 2 = CHR ''S'' \<and> m_CS t = OBJECT \<and> co t = 1 \<and> pstop t = 1 \<and>
     pixel_positions (m_INFO t ! 1) = [(0, 0), (0, 1), (0, 2), (1, 2)] \<and>
     pixel_positions (m_STORE t ! 2) = [(2, 0), (2, 1)] \<and>
   (case run_pixel 2 2 t of Inl e \<Rightarrow> False | Inr t' \<Rightarrow>
     co t' = 1 \<and> pstop t' = 2 \<and> m_START t' = m_START t \<and>
     pixel_positions (m_INFO t' ! 1) = [(0, 0), (0, 1), (0, 2), (1, 2), (2, 0), (2, 1), (2, 2)] \<and>
   (case rows_done 3 u_3x3 of Inl e \<Rightarrow> False | Inr s3 \<Rightarrow>
     m_MARKER s3 = [CHR ''S'', CHR 0x00, CHR 0x00, CHR ''F''] \<and>
   (case run u_3x3 of Inl e \<Rightarrow> False | Inr s' \<Rightarrow>
     map positions (m_Objects s') = [[(0, 0), (0, 1), (0, 2), (1, 2), (2, 0), (2, 1), (2, 2)]])))))"
  by code_simp

theorem u_joined_at_start_major_marker:
  "\<exists>s1 s2 t t' s3 s'.
     rows_done 1 u_3x3 = Inr s1 \<and> m_MARKER s1 = [CHR ''S'', CHR ''F'', CHR ''S'', CHR ''F'']
   \<and> rows_done 2 u_3x3 = Inr s2 \<and> m_MARKER s2 = [CHR ''S'', CHR ''F'', CHR ''S'', CHR ''F'']
   \<and> foldE (run_pixel 2) [0, 1] (s2\<lparr>m_PS := COMPLETE, m_CS := NONOBJECT\<rparr>) = Inr t
   \<and> m_MARKER t ! 2 = CHR ''S'' \<and> m_CS t = OBJECT \<and> co t = 1 \<and> pstop t = 1
   \<and> pixel_positions (m_INFO t ! 1) = [(0, 0), (0, 1), (0, 2), (1, 2)]
   \<and> pixel_positions (m_STORE t ! 2) = [(2, 0), (2, 1)]
   \<and> run_pixel 2 2 t = Inr t'
   \<and> co t' = 1 \<and> pstop t' = 2 \<and> m_START t' = m_START t
   \<and> pixel_positions (m_INFO t' ! 1) = [(0, 0), (0, 1), (0, 2), (1, 2), (2, 0), (2, 1), (2, 2)]
   \<and> rows_done 3 u_3x3 = Inr s3 \<and> m_MARKER s3 = [CHR ''S'', CHR 0x00, CHR 0x00, CHR ''F'']
   \<and> run u_3x3 = Inr s'
   \<and> map positions (m_Objects s') = [[(0, 0), (0, 1), (0, 2), (1, 2), (2, 0), (2, 1), (2, 2)]]"
  using trace_u_3x3 by (simp split: sum.splits)

end
